theory Spec2Isabelle
  imports Main
begin

section \<open>Host values: positions, ranges and documents\<close>

text \<open>
  The extension is written against the editor API. Three of the API's values occur in the
  code that the properties below are about, so they are modelled first, from the API's
  documented behaviour:
  \<^item> \<^verbatim>\<open>new vscode.Position(line, character)\<close> throws when a coordinate is negative;
  \<^item> \<^verbatim>\<open>new vscode.Range(start, end)\<close> swaps its arguments when \<open>start\<close> is not before
    \<open>end\<close> ("If start is not before or equal to end, the values will be swapped");
  \<^item> \<^verbatim>\<open>document.lineAt(n)\<close> throws unless \<open>0 \<le> n < lineCount\<close>.
  Line and character numbers are JavaScript numbers holding integers; they are \<open>int\<close> here,
  so that the subtraction \<^verbatim>\<open>end.line - 1\<close> and the shift by a negative \<open>lineDelta\<close> are what
  they are in the code.
\<close>

datatype error =
  IllegalLine int
| IllegalArgument
| EditRejected
| DocumentNotFound

record position =
  line :: int
  character :: int

definition mkPosition :: "int \<Rightarrow> int \<Rightarrow> error + position" where
  "mkPosition l c =
     (if l < 0 \<or> c < 0 then Inl IllegalArgument else Inr \<lparr>line = l, character = c\<rparr>)"

definition isBefore :: "position \<Rightarrow> position \<Rightarrow> bool" where
  "isBefore a b = (line a < line b \<or> (line a = line b \<and> character a < character b))"

definition isBeforeOrEqual :: "position \<Rightarrow> position \<Rightarrow> bool" where
  "isBeforeOrEqual a b = (line a < line b \<or> (line a = line b \<and> character a \<le> character b))"

record range =
  start :: position
  end' :: position

definition mkRange :: "position \<Rightarrow> position \<Rightarrow> range" where
  "mkRange a b = (if isBefore a b then \<lparr>start = a, end' = b\<rparr> else \<lparr>start = b, end' = a\<rparr>)"

definition mkRange4 :: "int \<Rightarrow> int \<Rightarrow> int \<Rightarrow> int \<Rightarrow> error + range" where
  "mkRange4 sl sc el ec =
     (case mkPosition sl sc of
        Inl e \<Rightarrow> Inl e
      | Inr a \<Rightarrow> (case mkPosition el ec of
                   Inl e \<Rightarrow> Inl e
                 | Inr b \<Rightarrow> Inr (mkRange a b)))"

text \<open>
  A document is its text, with \<^verbatim>\<open>\n\<close> as the line terminator (the form the pull command's
  \<open>normalize\<close> produces). \<open>split_nl\<close> is JavaScript's \<^verbatim>\<open>s.split('\n')\<close>: it always returns
  at least one piece, and the document's lines are these pieces.
\<close>

type_synonym document = string

fun split_nl :: "string \<Rightarrow> string list" where
  "split_nl [] = [[]]"
| "split_nl (c # cs) =
     (if c = CHR 0x0A then [] # split_nl cs
      else (c # hd (split_nl cs)) # tl (split_nl cs))"

definition endsWith_nl :: "string \<Rightarrow> bool" where
  "endsWith_nl s = (s \<noteq> [] \<and> last s = CHR 0x0A)"

definition lineCount :: "document \<Rightarrow> int" where
  "lineCount d = int (length (split_nl d))"

definition lineAt :: "document \<Rightarrow> int \<Rightarrow> error + string" where
  "lineAt d n =
     (if n < 0 \<or> lineCount d \<le> n then Inl (IllegalLine n) else Inr (split_nl d ! nat n))"

text \<open>\<^verbatim>\<open>lineAt(n).rangeIncludingLineBreak.end\<close>: the start of the next line, or the end of the
  line itself when it is the document's last line (which has no line break).\<close>

definition rangeIncludingLineBreak_end :: "document \<Rightarrow> int \<Rightarrow> error + position" where
  "rangeIncludingLineBreak_end d n =
     (case lineAt d n of
        Inl e \<Rightarrow> Inl e
      | Inr ln \<Rightarrow>
          Inr (if n + 1 < lineCount d then \<lparr>line = n + 1, character = 0\<rparr>
               else \<lparr>line = n, character = int (length ln)\<rparr>))"

text \<open>The offset of a position in the text; the host clamps a position to the document
  (a line past the end is the end of the text, a character past the end of its line is the
  end of the line).\<close>

fun offsetIn :: "string list \<Rightarrow> nat \<Rightarrow> nat \<Rightarrow> nat" where
  "offsetIn [] l c = 0"
| "offsetIn [ln] l c = (if l = 0 then min c (length ln) else length ln)"
| "offsetIn (ln # lns) 0 c = min c (length ln)"
| "offsetIn (ln # lns) (Suc l) c = length ln + 1 + offsetIn lns l c"

definition offsetAt :: "document \<Rightarrow> position \<Rightarrow> nat" where
  "offsetAt d p = offsetIn (split_nl d) (nat (line p)) (nat (character p))"

definition replaceRange :: "document \<Rightarrow> range \<Rightarrow> string \<Rightarrow> document" where
  "replaceRange d r t = take (offsetAt d (start r)) d @ t @ drop (offsetAt d (end' r)) d"

section \<open>Pending changes and the process state\<close>

datatype ChangeKind = Added | Removed | Changed

record PendingChange =
  change_id :: nat
  kind :: ChangeKind
  change_range :: range
  remoteText :: string

text \<open>A segment of the line differ's output (\<^verbatim>\<open>Diff.ChangeObject<string>\<close>).\<close>

record ChangeObject =
  part_value :: string
  added :: bool
  removed :: bool

text \<open>A decoration: the range painted and the hover built by \<open>makeHover\<close>, which shows the
  remote text and carries the document and the change id of its accept and reject links.\<close>

record hover =
  hover_remote :: string
  hover_uri :: string
  hover_id :: nat

record DecorationOptions =
  deco_range :: range
  hoverMessage :: hover

definition makeHover :: "PendingChange \<Rightarrow> string \<Rightarrow> hover" where
  "makeHover ch docUri =
     \<lparr>hover_remote = remoteText ch, hover_uri = docUri, hover_id = change_id ch\<rparr>"

record decorations =
  removedDeco :: "DecorationOptions list"
  changedDeco :: "DecorationOptions list"
  addedDeco :: "DecorationOptions list"

text \<open>
  The process state: the module variables \<open>nextChangeId\<close> and \<open>pendingByDoc\<close>, and what the
  code reads and writes of the host: the text of each document, which documents have a
  visible editor, the decorations painted in each editor, the information messages shown
  and the errors logged by the commands' \<^verbatim>\<open>catch\<close> blocks.
\<close>

record world =
  nextChangeId :: nat
  pendingByDoc :: "string \<rightharpoonup> PendingChange list"
  documents :: "string \<rightharpoonup> document"
  visibleTextEditors :: "string set"
  painted :: "string \<rightharpoonup> decorations"
  infoMessages :: "string list"
  consoleErrors :: "error list"

record TextEditor =
  editor_uri :: string
  editor_document :: document

section \<open>Building the pending changes: markChanges\<close>

text \<open>\<^verbatim>\<open>text.split('\n').length - (text.endsWith('\n') ? 1 : 0)\<close>\<close>

definition countLines :: "string \<Rightarrow> int" where
  "countLines t = int (length (split_nl t)) - (if endsWith_nl t then 1 else 0)"

text \<open>The range a decoration is painted with: when the range ends at column 0, the code
  replaces its end by the end of the line before. \<open>lineAt\<close> is evaluated before the
  position is built, and a line it accepts is not negative.\<close>

definition decoRangeOf :: "document \<Rightarrow> range \<Rightarrow> error + range" where
  "decoRangeOf d r =
     (if character (end' r) = 0 then
        (case lineAt d (line (end' r) - 1) of
           Inl e \<Rightarrow> Inl e
         | Inr ln \<Rightarrow>
             Inr (mkRange (start r) \<lparr>line = line (end' r) - 1, character = int (length ln)\<rparr>))
      else Inr r)"

record mark_state =
  pending :: "PendingChange list"
  li :: int
  nextChangeIdLocal :: nat
  removedDecos :: "DecorationOptions list"
  changedDecos :: "DecorationOptions list"
  addedDecos :: "DecorationOptions list"

text \<open>The range of a removed block of \<open>n\<close> lines at line \<open>l\<close>:
  \<^verbatim>\<open>new Range(new Position(l, 0), lineAt(l + n - 1).rangeIncludingLineBreak.end)\<close>.\<close>

definition blockRange :: "document \<Rightarrow> int \<Rightarrow> int \<Rightarrow> error + range" where
  "blockRange d startLine endLine =
     (case mkPosition startLine 0 of
        Inl e \<Rightarrow> Inl e
      | Inr a \<Rightarrow> (case rangeIncludingLineBreak_end d endLine of
                   Inl e \<Rightarrow> Inl e
                 | Inr b \<Rightarrow> Inr (mkRange a b)))"

text \<open>The three branches of the loop body that produce a change.\<close>

definition changedStep ::
  "TextEditor \<Rightarrow> ChangeObject \<Rightarrow> ChangeObject \<Rightarrow> mark_state \<Rightarrow> error + mark_state" where
  "changedStep editor part nxt s =
     (let removedLinesCount = countLines (part_value part);
          startLine = li s;
          endLine = li s + removedLinesCount - 1
      in case blockRange (editor_document editor) startLine endLine of
           Inl e \<Rightarrow> Inl e
         | Inr r \<Rightarrow>
            (let ch = \<lparr>change_id = nextChangeIdLocal s, kind = Changed, change_range = r,
                        remoteText = part_value nxt\<rparr>
             in case decoRangeOf (editor_document editor) r of
                  Inl e \<Rightarrow> Inl e
                | Inr dr \<Rightarrow>
                    Inr (s\<lparr>pending := pending s @ [ch],
                           nextChangeIdLocal := nextChangeIdLocal s + 1,
                           changedDecos := changedDecos s @
                             [\<lparr>deco_range = dr, hoverMessage = makeHover ch (editor_uri editor)\<rparr>],
                           li := li s + removedLinesCount\<rparr>)))"

definition removedStep :: "TextEditor \<Rightarrow> ChangeObject \<Rightarrow> mark_state \<Rightarrow> error + mark_state" where
  "removedStep editor part s =
     (let linesCount = countLines (part_value part);
          startLine = li s;
          endLine = li s + linesCount - 1
      in case blockRange (editor_document editor) startLine endLine of
           Inl e \<Rightarrow> Inl e
         | Inr r \<Rightarrow>
            (let ch = \<lparr>change_id = nextChangeIdLocal s, kind = Removed, change_range = r,
                        remoteText = []\<rparr>
             in case decoRangeOf (editor_document editor) r of
                  Inl e \<Rightarrow> Inl e
                | Inr dr \<Rightarrow>
                    Inr (s\<lparr>pending := pending s @ [ch],
                           nextChangeIdLocal := nextChangeIdLocal s + 1,
                           removedDecos := removedDecos s @
                             [\<lparr>deco_range = dr, hoverMessage = makeHover ch (editor_uri editor)\<rparr>],
                           li := li s + linesCount\<rparr>)))"

definition addedStep :: "TextEditor \<Rightarrow> ChangeObject \<Rightarrow> mark_state \<Rightarrow> error + mark_state" where
  "addedStep editor part s =
     (let insertLine = li s
      in case mkRange4 insertLine 0 insertLine 0 of
           Inl e \<Rightarrow> Inl e
         | Inr r \<Rightarrow>
            (let ch = \<lparr>change_id = nextChangeIdLocal s, kind = Added, change_range = r,
                        remoteText = part_value part\<rparr>
             in case decoRangeOf (editor_document editor) r of
                  Inl e \<Rightarrow> Inl e
                | Inr dr \<Rightarrow>
                    Inr (s\<lparr>pending := pending s @ [ch],
                           nextChangeIdLocal := nextChangeIdLocal s + 1,
                           addedDecos := addedDecos s @
                             [\<lparr>deco_range = dr, hoverMessage = makeHover ch (editor_uri editor)\<rparr>]\<rparr>)))"

text \<open>\<^verbatim>\<open>diffs[i + 1]?.added\<close>: false when there is no next segment.\<close>

definition nextAdded :: "ChangeObject list \<Rightarrow> bool" where
  "nextAdded rest = (case rest of [] \<Rightarrow> False | nxt # _ \<Rightarrow> added nxt)"

text \<open>The loop over the segments. The first branch consumes two segments
  (\<^verbatim>\<open>i++; continue\<close>), the others one.\<close>

fun markLoop :: "TextEditor \<Rightarrow> ChangeObject list \<Rightarrow> mark_state \<Rightarrow> error + mark_state" where
  "markLoop editor [] s = Inr s"
| "markLoop editor (part # rest) s =
     (if removed part \<and> nextAdded rest then
        (case changedStep editor part (hd rest) s of
           Inl e \<Rightarrow> Inl e
         | Inr s' \<Rightarrow> markLoop editor (tl rest) s')
      else if removed part then
        (case removedStep editor part s of
           Inl e \<Rightarrow> Inl e
         | Inr s' \<Rightarrow> markLoop editor rest s')
      else if added part then
        (case addedStep editor part s of
           Inl e \<Rightarrow> Inl e
         | Inr s' \<Rightarrow> markLoop editor rest s')
      else markLoop editor rest (s\<lparr>li := li s + countLines (part_value part)\<rparr>))"

definition initialMark :: "nat \<Rightarrow> mark_state" where
  "initialMark n =
     \<lparr>pending = [], li = 0, nextChangeIdLocal = n,
      removedDecos = [], changedDecos = [], addedDecos = []\<rparr>"

text \<open>\<open>markChanges\<close>: when the loop throws, nothing of the state has been written; when it
  returns, the counter, the store entry and the editor's decorations are set.\<close>

definition markChanges :: "TextEditor \<Rightarrow> ChangeObject list \<Rightarrow> world \<Rightarrow> error + world" where
  "markChanges editor diffs w =
     (case markLoop editor diffs (initialMark (nextChangeId w)) of
        Inl e \<Rightarrow> Inl e
      | Inr s \<Rightarrow>
          Inr (w\<lparr>nextChangeId := nextChangeIdLocal s,
                 pendingByDoc := (pendingByDoc w)(editor_uri editor \<mapsto> pending s),
                 painted := (painted w)(editor_uri editor \<mapsto>
                   \<lparr>removedDeco = removedDecos s, changedDeco = changedDecos s,
                    addedDeco = addedDecos s\<rparr>)\<rparr>))"

section \<open>Repainting: refreshDecorationsFor\<close>

definition emptyDecorations :: decorations where
  "emptyDecorations = \<lparr>removedDeco = [], changedDeco = [], addedDeco = []\<rparr>"

text \<open>The loop over the pending changes of the document; the trimming of the range is the
  same expression as in \<open>markChanges\<close>.\<close>

fun refreshLoop ::
  "document \<Rightarrow> string \<Rightarrow> PendingChange list \<Rightarrow> decorations \<Rightarrow> error + decorations" where
  "refreshLoop d docUri [] acc = Inr acc"
| "refreshLoop d docUri (ch # rest) acc =
     (case decoRangeOf d (change_range ch) of
        Inl e \<Rightarrow> Inl e
      | Inr dr \<Rightarrow>
          (let deco = \<lparr>deco_range = dr, hoverMessage = makeHover ch docUri\<rparr>
           in refreshLoop d docUri rest
                (if kind ch = Removed then acc\<lparr>removedDeco := removedDeco acc @ [deco]\<rparr>
                 else if kind ch = Changed then acc\<lparr>changedDeco := changedDeco acc @ [deco]\<rparr>
                 else acc\<lparr>addedDeco := addedDeco acc @ [deco]\<rparr>)))"

text \<open>\<^verbatim>\<open>visibleTextEditors.find(e => e.document.uri.toString() === docUri.toString())\<close>:
  the document of the visible editor, if there is one.\<close>

definition findVisibleEditor :: "world \<Rightarrow> string \<Rightarrow> document option" where
  "findVisibleEditor w docUri =
     (if docUri \<in> visibleTextEditors w then documents w docUri else None)"

definition refreshDecorationsFor :: "string \<Rightarrow> world \<Rightarrow> error + world" where
  "refreshDecorationsFor docUri w =
     (case findVisibleEditor w docUri of
        None \<Rightarrow> Inr w
      | Some d \<Rightarrow>
          (case refreshLoop d docUri
                  (case pendingByDoc w docUri of None \<Rightarrow> [] | Some p \<Rightarrow> p) emptyDecorations of
             Inl e \<Rightarrow> Inl e
           | Inr ds \<Rightarrow> Inr (w\<lparr>painted := (painted w)(docUri \<mapsto> ds)\<rparr>)))"

section \<open>Resolving a change: accept and reject\<close>

text \<open>\<^verbatim>\<open>pending.findIndex(p)\<close>, with \<open>None\<close> for \<open>-1\<close>.\<close>

fun findIndex :: "('a \<Rightarrow> bool) \<Rightarrow> 'a list \<Rightarrow> nat option" where
  "findIndex P [] = None"
| "findIndex P (x # xs) = (if P x then Some 0 else map_option Suc (findIndex P xs))"

text \<open>The line delta of the accepted change, as the accept command computes it from the
  change's range and remote text.\<close>

definition lineDelta :: "PendingChange \<Rightarrow> int" where
  "lineDelta ch =
     (if kind ch = Removed then
        (let removedLinesCount =
               line (end' (change_range ch)) - line (start (change_range ch)) + 1
         in - removedLinesCount)
      else if kind ch = Changed then
        (let removedLinesCount = line (end' (change_range ch)) - line (start (change_range ch));
             addedLinesCount = int (length (split_nl (remoteText ch))) - 1
         in addedLinesCount - removedLinesCount)
      else
        (let addedLinesCount = int (length (split_nl (remoteText ch))) - 1
         in addedLinesCount))"

text \<open>The edit of the accepted change: delete the range, replace it, or insert at its
  start.\<close>

definition applyEdit :: "PendingChange \<Rightarrow> document \<Rightarrow> document" where
  "applyEdit ch d =
     (if kind ch = Removed then replaceRange d (change_range ch) []
      else if kind ch = Changed then replaceRange d (change_range ch) (remoteText ch)
      else replaceRange d
             \<lparr>start = start (change_range ch), end' = start (change_range ch)\<rparr> (remoteText ch))"

text \<open>What the host answers to \<^verbatim>\<open>await editor.edit(...)\<close>: the promise resolves to true
  (the edit was applied), resolves to false (it was not), or is rejected.\<close>

datatype edit_outcome = EditApplied | EditNotApplied | EditThrows

text \<open>The loop that re-anchors the changes after the accepted one. It assigns
  \<^verbatim>\<open>other.range\<close> in the objects of the stored list, so when a \<open>Range\<close> cannot be built the
  changes already visited stay shifted: the loop returns the list as it is then, and the
  error.\<close>

fun reanchor :: "int \<Rightarrow> PendingChange list \<Rightarrow> error option \<times> PendingChange list" where
  "reanchor delta [] = (None, [])"
| "reanchor delta (other # rest) =
     (let newStart = line (start (change_range other)) + delta;
          newEnd = line (end' (change_range other)) + delta
      in case mkRange4 newStart (character (start (change_range other)))
                       newEnd (character (end' (change_range other))) of
           Inl e \<Rightarrow> (Some e, other # rest)
         | Inr r \<Rightarrow>
             (case reanchor delta rest of
                (err, rest') \<Rightarrow> (err, other\<lparr>change_range := r\<rparr> # rest')))"

definition decorationsOf :: "string \<Rightarrow> PendingChange list \<Rightarrow> decorations" where
  "decorationsOf docUri ps =
     \<lparr>removedDeco =
        map (\<lambda>c. \<lparr>deco_range = change_range c, hoverMessage = makeHover c docUri\<rparr>)
          (filter (\<lambda>c. kind c = Removed) ps),
      changedDeco =
        map (\<lambda>c. \<lparr>deco_range = change_range c, hoverMessage = makeHover c docUri\<rparr>)
          (filter (\<lambda>c. kind c = Changed) ps),
      addedDeco =
        map (\<lambda>c. \<lparr>deco_range = change_range c, hoverMessage = makeHover c docUri\<rparr>)
          (filter (\<lambda>c. kind c = Added) ps)\<rparr>"

text \<open>\<^verbatim>\<open>if (pending.length === 0) pendingByDoc.delete(key); else pendingByDoc.set(key, pending)\<close>\<close>

definition storePending ::
  "string \<Rightarrow> PendingChange list \<Rightarrow> (string \<rightharpoonup> PendingChange list) \<Rightarrow> (string \<rightharpoonup> PendingChange list)" where
  "storePending docUri ps m = (if ps = [] then m(docUri := None) else m(docUri \<mapsto> ps))"

text \<open>The \<^verbatim>\<open>catch\<close> block of a command: the error is logged, nothing else.\<close>

definition caught :: "error \<Rightarrow> world \<Rightarrow> world" where
  "caught e w = w\<lparr>consoleErrors := consoleErrors w @ [e]\<rparr>"

text \<open>
  The accept command. \<open>h\<close> is the host's answer to the edit. The value of the awaited edit
  is not read by the code, so \<open>EditApplied\<close> and \<open>EditNotApplied\<close> differ in the document
  only. The argument \<open>docUri\<close> is the key \<^verbatim>\<open>vscode.Uri.parse(args.uri).toString()\<close>.
\<close>

definition acceptChange :: "edit_outcome \<Rightarrow> string \<Rightarrow> nat \<Rightarrow> world \<Rightarrow> world" where
  "acceptChange h docUri cid w =
     (case pendingByDoc w docUri of
        None \<Rightarrow> w
      | Some ps \<Rightarrow>
         (case findIndex (\<lambda>ch. change_id ch = cid) ps of
            None \<Rightarrow> w
          | Some idx \<Rightarrow>
             (let ch = ps ! idx in
              case documents w docUri of
                None \<Rightarrow> caught DocumentNotFound w
              | Some d \<Rightarrow>
                 (let w1 = w\<lparr>visibleTextEditors := insert docUri (visibleTextEditors w)\<rparr>;
                      delta = lineDelta ch
                  in if h = EditThrows then caught EditRejected w1
                     else
                      (let w2 = (if h = EditApplied
                                 then w1\<lparr>documents := (documents w1)(docUri \<mapsto> applyEdit ch d)\<rparr>
                                 else w1)
                       in case reanchor delta (drop (idx + 1) ps) of
                            (Some e, later) \<Rightarrow>
                              caught e (w2\<lparr>pendingByDoc :=
                                (pendingByDoc w2)(docUri \<mapsto> take (idx + 1) ps @ later)\<rparr>)
                          | (None, later) \<Rightarrow>
                              (let ps' = take idx ps @ later;
                                   w3 = w2\<lparr>pendingByDoc := storePending docUri ps' (pendingByDoc w2),
                                           painted := (painted w2)(docUri \<mapsto> decorationsOf docUri ps')\<rparr>
                               in if ps' = []
                                  then w3\<lparr>infoMessages := infoMessages w3 @
                                         [''All changes accepted for this file.'']\<rparr>
                                  else w3))))))"

text \<open>The reject command: no edit, no re-anchoring; the editor is repainted when it is
  visible.\<close>

definition rejectChange :: "string \<Rightarrow> nat \<Rightarrow> world \<Rightarrow> world" where
  "rejectChange docUri cid w =
     (case pendingByDoc w docUri of
        None \<Rightarrow> w
      | Some ps \<Rightarrow>
         (case findIndex (\<lambda>ch. change_id ch = cid) ps of
            None \<Rightarrow> w
          | Some idx \<Rightarrow>
             (let ps' = take idx ps @ drop (idx + 1) ps;
                  w1 = w\<lparr>pendingByDoc := storePending docUri ps' (pendingByDoc w)\<rparr>
              in case findVisibleEditor w1 docUri of
                   None \<Rightarrow> w1
                 | Some d \<Rightarrow> w1\<lparr>painted := (painted w1)(docUri \<mapsto> decorationsOf docUri ps')\<rparr>)))"

section \<open>The pull command's normalisation and the line differ's contract\<close>

text \<open>\<^verbatim>\<open>content.replace(/\r\n/g, "\n").replace(/[ \t]+\n/g, "\n")\<close>\<close>

fun crlf_to_lf :: "string \<Rightarrow> string" where
  "crlf_to_lf (c # c' # cs) =
     (if c = CHR 0x0D \<and> c' = CHR 0x0A then CHR 0x0A # crlf_to_lf cs
      else c # crlf_to_lf (c' # cs))"
| "crlf_to_lf cs = cs"

fun strip_before_nl :: "string \<Rightarrow> string \<Rightarrow> string" where
  "strip_before_nl ws [] = ws"
| "strip_before_nl ws (c # cs) =
     (if c = CHR 0x20 \<or> c = CHR 0x09 then strip_before_nl (ws @ [c]) cs
      else if c = CHR 0x0A then c # strip_before_nl [] cs
      else ws @ c # strip_before_nl [] cs)"

definition normalize :: "string \<Rightarrow> string" where
  "normalize content = strip_before_nl [] (crlf_to_lf content)"

text \<open>
  The line differ (\<^verbatim>\<open>Diff.diffLines\<close>) is a library. Of its output the properties below use
  the contract of the interface: the segments are ordered and cover both texts with no
  gaps, so the segments that are not added spell the old text and the segments that are
  not removed spell the new text.
\<close>

definition lineDiffOf :: "ChangeObject list \<Rightarrow> string \<Rightarrow> string \<Rightarrow> bool" where
  "lineDiffOf diffs oldText newText =
     (concat (map part_value (filter (\<lambda>p. \<not> added p) diffs)) = oldText \<and>
      concat (map part_value (filter (\<lambda>p. \<not> removed p) diffs)) = newText)"


section \<open>The process as a sequence of commands\<close>

text \<open>
  The module state lives as long as the process, and the commands run one after the other
  on the extension host's single thread. A run of the process is a list of commands, each
  applied to the state the one before left. \<open>MarkCmd\<close> is one call of \<open>markChanges\<close>; when
  the call throws, the module state is as before the call (what the caller does with the
  exception is outside the module state). \<open>RefreshCmd\<close> is one call of
  \<open>refreshDecorationsFor\<close>, whose rejection nobody handles.
\<close>

datatype command =
  MarkCmd TextEditor "ChangeObject list"
| AcceptCmd edit_outcome string nat
| RejectCmd string nat
| RefreshCmd string

fun exec :: "command \<Rightarrow> world \<Rightarrow> world" where
  "exec (MarkCmd editor diffs) w =
     (case markChanges editor diffs w of Inl e \<Rightarrow> w | Inr w' \<Rightarrow> w')"
| "exec (AcceptCmd h docUri cid) w = acceptChange h docUri cid w"
| "exec (RejectCmd docUri cid) w = rejectChange docUri cid w"
| "exec (RefreshCmd docUri) w =
     (case refreshDecorationsFor docUri w of Inl e \<Rightarrow> w | Inr w' \<Rightarrow> w')"

definition run :: "command list \<Rightarrow> world \<Rightarrow> world" where
  "run cmds w = foldl (\<lambda>w c. exec c w) w cmds"

section \<open>Notions used in the statements\<close>

text \<open>The end of line \<open>n\<close> of the document, its line break included: what
  \<open>rangeIncludingLineBreak_end\<close> returns for a line of the document.\<close>

definition lineBreakEnd :: "document \<Rightarrow> int \<Rightarrow> position" where
  "lineBreakEnd d n =
     (if n + 1 < lineCount d then \<lparr>line = n + 1, character = 0\<rparr>
      else \<lparr>line = n, character = int (length (split_nl d ! nat n))\<rparr>)"

text \<open>The invariants of a host \<open>Range\<close> value: no negative coordinate, and the start not
  after the end. \<open>shiftLines\<close> moves both line numbers of a range.\<close>

definition validRange :: "range \<Rightarrow> bool" where
  "validRange r =
     (0 \<le> line (start r) \<and> 0 \<le> character (start r) \<and> 0 \<le> character (end' r) \<and>
      isBeforeOrEqual (start r) (end' r))"

definition shiftLines :: "int \<Rightarrow> range \<Rightarrow> range" where
  "shiftLines delta r =
     \<lparr>start = \<lparr>line = line (start r) + delta, character = character (start r)\<rparr>,
      end' = \<lparr>line = line (end' r) + delta, character = character (end' r)\<rparr>\<rparr>"

text \<open>\<open>precedes a b\<close>: the range of \<open>a\<close> ends before or where the range of \<open>b\<close> starts, and
  \<open>a\<close> does not start on a later line than \<open>b\<close>. \<open>startsBefore a b\<close>: \<open>a\<close> starts on an
  earlier line than \<open>b\<close>.\<close>

definition precedes :: "PendingChange \<Rightarrow> PendingChange \<Rightarrow> bool" where
  "precedes a b =
     (isBeforeOrEqual (end' (change_range a)) (start (change_range b)) \<and>
      line (start (change_range a)) \<le> line (start (change_range b)))"

definition startsBefore :: "PendingChange \<Rightarrow> PendingChange \<Rightarrow> bool" where
  "startsBefore a b = (line (start (change_range a)) < line (start (change_range b)))"

text \<open>A list of segments in which every added segment is followed by an unchanged one (or by
  nothing). The line differ merges neighbouring segments of one kind and puts a removed
  segment before the added one that replaces it, so its output has this form.\<close>

fun separated :: "ChangeObject list \<Rightarrow> bool" where
  "separated (p # q # rest) = ((added p \<longrightarrow> \<not> added q \<and> \<not> removed q) \<and> separated (q # rest))"
| "separated ps = True"

text \<open>The form of the added changes in a list, and the store in which every list has it: an
  added change is a zero-width range at column 0.\<close>

definition addedZeroWidth :: "PendingChange list \<Rightarrow> bool" where
  "addedZeroWidth ps =
     (\<forall>c\<in>set ps. kind c = Added \<longrightarrow>
        (\<exists>l. change_range c =
           \<lparr>start = \<lparr>line = l, character = 0\<rparr>, end' = \<lparr>line = l, character = 0\<rparr>\<rparr>))"

definition storeInv :: "world \<Rightarrow> bool" where
  "storeInv w = (\<forall>docUri ps. pendingByDoc w docUri = Some ps \<longrightarrow> addedZeroWidth ps)"

text \<open>What the three change-producing branches of the loop have in common: one change is
  appended, it takes the next id, it starts at column 0 of the cursor line and ends at or
  before the new cursor line; an added change also ends at column 0 of the cursor line.\<close>

definition emits :: "mark_state \<Rightarrow> mark_state \<Rightarrow> bool" where
  "emits s s' =
     (\<exists>ch n. pending s' = pending s @ [ch] \<and> change_id ch = nextChangeIdLocal s \<and>
        nextChangeIdLocal s' = Suc (nextChangeIdLocal s) \<and> li s' = li s + n \<and> 0 \<le> n \<and>
        0 \<le> li s \<and>
        start (change_range ch) = \<lparr>line = li s, character = 0\<rparr> \<and>
        isBeforeOrEqual (end' (change_range ch)) \<lparr>line = li s + n, character = 0\<rparr> \<and>
        (kind ch = Added \<longrightarrow> end' (change_range ch) = \<lparr>line = li s, character = 0\<rparr>))"

text \<open>The number of line breaks of a text, and the line delta as the specification's
  formula gives it from the number of lines a change spans.\<close>

definition newlineCount :: "string \<Rightarrow> int" where
  "newlineCount t = int (length (filter (\<lambda>c. c = CHR 0x0A) t))"

definition spec_lineDelta :: "ChangeKind \<Rightarrow> int \<Rightarrow> string \<Rightarrow> int" where
  "spec_lineDelta k spannedLines remote =
     (case k of
        Removed \<Rightarrow> - spannedLines
      | Changed \<Rightarrow> newlineCount remote - (spannedLines - 1)
      | Added \<Rightarrow> newlineCount remote)"

section \<open>Example documents\<close>

text \<open>
  The state of a process that has just started, with one document open in an editor; and
  three documents with the segments the line differ returns for them.
  \<^item> A: two separate lines of the local text are missing in the remote text.
  \<^item> D: the first local line is missing in the remote text, and the remote text has a new
    last line.
  \<^item> E: a removed line, a line replaced by two lines, and an added line.
  \<^item> F: a document whose last line has no line break.
\<close>

definition equalPart :: "string \<Rightarrow> ChangeObject" where
  "equalPart t = \<lparr>part_value = t, added = False, removed = False\<rparr>"

definition removedPart :: "string \<Rightarrow> ChangeObject" where
  "removedPart t = \<lparr>part_value = t, added = False, removed = True\<rparr>"

definition addedPart :: "string \<Rightarrow> ChangeObject" where
  "addedPart t = \<lparr>part_value = t, added = True, removed = False\<rparr>"

definition startWorld :: "string \<Rightarrow> document \<Rightarrow> world" where
  "startWorld docUri d =
     \<lparr>nextChangeId = 1, pendingByDoc = Map.empty, documents = [docUri \<mapsto> d],
      visibleTextEditors = {docUri}, painted = Map.empty, infoMessages = [], consoleErrors = []\<rparr>"

definition localA :: string where "localA = ''a\<newline>b\<newline>c\<newline>d\<newline>e\<newline>''"

definition remoteA :: string where "remoteA = ''a\<newline>c\<newline>e\<newline>''"

definition diffsA :: "ChangeObject list" where
  "diffsA = [equalPart ''a\<newline>'', removedPart ''b\<newline>'', equalPart ''c\<newline>'',
             removedPart ''d\<newline>'', equalPart ''e\<newline>'']"

definition editorA :: TextEditor where
  "editorA = \<lparr>editor_uri = ''file:///A.jsx'', editor_document = localA\<rparr>"

definition markedA :: world where
  "markedA = run [MarkCmd editorA diffsA] (startWorld ''file:///A.jsx'' localA)"

definition removedAt :: "nat \<Rightarrow> int \<Rightarrow> PendingChange" where
  "removedAt n l = \<lparr>change_id = n, kind = Removed,
      change_range = \<lparr>start = \<lparr>line = l, character = 0\<rparr>, end' = \<lparr>line = l + 1, character = 0\<rparr>\<rparr>,
      remoteText = []\<rparr>"

definition localD :: string where "localD = ''a\<newline>b\<newline>''"

definition remoteD :: string where "remoteD = ''b\<newline>X\<newline>''"

definition diffsD :: "ChangeObject list" where
  "diffsD = [removedPart ''a\<newline>'', equalPart ''b\<newline>'', addedPart ''X\<newline>'']"

definition editorD :: TextEditor where
  "editorD = \<lparr>editor_uri = ''file:///D.jsx'', editor_document = localD\<rparr>"

definition acceptedD :: world where
  "acceptedD = run [MarkCmd editorD diffsD, AcceptCmd EditApplied ''file:///D.jsx'' 1]
                 (startWorld ''file:///D.jsx'' localD)"

definition localE :: string where
  "localE = ''a\<newline>b\<newline>c\<newline>d\<newline>e\<newline>f\<newline>g\<newline>''"

definition remoteE :: string where
  "remoteE = ''a\<newline>c\<newline>D1\<newline>D2\<newline>e\<newline>X\<newline>f\<newline>g\<newline>''"

definition diffsE :: "ChangeObject list" where
  "diffsE = [equalPart ''a\<newline>'', removedPart ''b\<newline>'', equalPart ''c\<newline>'',
             removedPart ''d\<newline>'', addedPart ''D1\<newline>D2\<newline>'', equalPart ''e\<newline>'',
             addedPart ''X\<newline>'', equalPart ''f\<newline>g\<newline>'']"

definition editorE :: TextEditor where
  "editorE = \<lparr>editor_uri = ''file:///E.jsx'', editor_document = localE\<rparr>"

definition markedE :: world where
  "markedE = run [MarkCmd editorE diffsE] (startWorld ''file:///E.jsx'' localE)"

definition changedE :: PendingChange where
  "changedE = \<lparr>change_id = 2, kind = Changed,
      change_range = \<lparr>start = \<lparr>line = 3, character = 0\<rparr>, end' = \<lparr>line = 4, character = 0\<rparr>\<rparr>,
      remoteText = ''D1\<newline>D2\<newline>''\<rparr>"

definition addedE :: PendingChange where
  "addedE = \<lparr>change_id = 3, kind = Added,
      change_range = \<lparr>start = \<lparr>line = 5, character = 0\<rparr>, end' = \<lparr>line = 5, character = 0\<rparr>\<rparr>,
      remoteText = ''X\<newline>''\<rparr>"

definition markedEA :: world where
  "markedEA = run [MarkCmd editorE diffsE, AcceptCmd EditApplied ''file:///E.jsx'' 1,
                   MarkCmd editorA diffsA] (startWorld ''file:///E.jsx'' localE)"

definition localF :: string where "localF = ''a\<newline>b\<newline>c''"
definition editorF :: TextEditor where
  "editorF = \<lparr>editor_uri = ''file:///F.jsx'', editor_document = localF\<rparr>"

section \<open>Lemmas about the model\<close>

subsection \<open>Lists, lines and ranges\<close>

lemma findIndex_None: "(findIndex P xs = None) = (\<forall>x\<in>set xs. \<not> P x)"
  by (induction xs) auto

lemma findIndex_Some:
  "findIndex P xs = Some i \<Longrightarrow> i < length xs \<and> P (xs ! i) \<and> (\<forall>j<i. \<not> P (xs ! j))"
proof (induction xs arbitrary: i)
  case Nil
  then show ?case by simp
next
  case (Cons x xs)
  show ?case
  proof (cases "P x")
    case True
    with Cons.prems show ?thesis by simp
  next
    case False
    with Cons.prems obtain k where k: "findIndex P xs = Some k" "i = Suc k" by auto
    from Cons.IH [OF k(1)] False k(2) show ?thesis
      by (auto simp: less_Suc_eq_0_disj)
  qed
qed

lemma remove_nth_filter:
  "findIndex (\<lambda>ch. f ch = cid) ps = Some idx \<Longrightarrow> distinct (map f ps) \<Longrightarrow>
   take idx ps @ drop (Suc idx) ps = filter (\<lambda>c. f c \<noteq> cid) ps"
proof (induction ps arbitrary: idx)
  case Nil
  then show ?case by simp
next
  case (Cons x xs)
  show ?case
  proof (cases "f x = cid")
    case True
    with Cons.prems have "idx = 0" by simp
    moreover from Cons.prems(2) have "f x \<notin> f ` set xs" by simp
    with True have "\<forall>c\<in>set xs. f c \<noteq> cid" by blast
    then have "filter (\<lambda>c. f c \<noteq> cid) xs = xs" by (simp add: filter_id_conv)
    ultimately show ?thesis using True by simp
  next
    case False
    with Cons.prems obtain k where k: "findIndex (\<lambda>ch. f ch = cid) xs = Some k" "idx = Suc k" by auto
    from Cons.IH [OF k(1)] Cons.prems(2) False k(2) show ?thesis by simp
  qed
qed

lemma split_nl_not_Nil: "split_nl s \<noteq> []"
  by (induction s) auto

lemma length_split_nl: "length (split_nl s) = Suc (length (filter (\<lambda>c. c = CHR 0x0A) s))"
  by (induction s) (auto simp: split_nl_not_Nil)

lemma split_nl_single: "length (split_nl d) = Suc 0 \<Longrightarrow> split_nl d = [d]"
proof (induction d)
  case Nil
  then show ?case by simp
next
  case (Cons c cs)
  have ne: "split_nl cs \<noteq> []" by (rule split_nl_not_Nil)
  from Cons.prems have nl: "c \<noteq> CHR 0x0A" using ne by (auto split: if_splits)
  with Cons.prems ne have "length (split_nl cs) = Suc 0"
    by (cases "split_nl cs") auto
  then have "split_nl cs = [cs]" by (rule Cons.IH)
  with nl show ?case by simp
qed

lemma newlines_split: "int (length (split_nl t)) - 1 = newlineCount t"
  by (simp add: newlineCount_def length_split_nl)

lemma countLines_pos: "1 \<le> countLines t"
proof (cases "endsWith_nl t")
  case True
  then have "CHR 0x0A \<in> set t" 
    using last_in_set [of t] by (auto simp: endsWith_nl_def)
  then have "0 < length (filter (\<lambda>c. c = CHR 0x0A) t)"
    by (simp add: filter_empty_conv length_greater_0_conv)
  then have "1 \<le> length (filter (\<lambda>c. c = CHR 0x0A) t)" by linarith
  then show ?thesis by (simp add: countLines_def length_split_nl)
next
  case False
  then show ?thesis by (simp add: countLines_def length_split_nl)
qed

lemma filter_nl_lines:
  assumes "\<forall>l\<in>set ls. CHR 0x0A \<notin> set l"
  shows "length (filter (\<lambda>c. c = CHR 0x0A) (concat (map (\<lambda>l. l @ [CHR 0x0A]) ls))) = length ls"
  using assms
proof (induction ls)
  case Nil
  then show ?case by simp
next
  case (Cons l ls)
  from Cons.prems have "filter (\<lambda>c. c = CHR 0x0A) l = []"
    by (auto simp: filter_empty_conv)
  with Cons show ?case by simp
qed

lemma last_lines:
  assumes "ls \<noteq> []"
  shows "concat (map (\<lambda>l. l @ [CHR 0x0A]) ls) \<noteq> [] \<and>
         last (concat (map (\<lambda>l. l @ [CHR 0x0A]) ls)) = CHR 0x0A"
  using assms
proof (induction ls)
  case Nil
  then show ?case by simp
next
  case (Cons l ls)
  show ?case
  proof (cases "ls = []")
    case True
    then show ?thesis by simp
  next
    case False
    with Cons.IH show ?thesis by simp
  qed
qed

lemma countLines_lines:
  assumes nl: "\<forall>l\<in>set ls. CHR 0x0A \<notin> set l" and tl: "CHR 0x0A \<notin> set rest"
      and ne: "ls \<noteq> [] \<or> rest \<noteq> []"
  shows "countLines (concat (map (\<lambda>l. l @ [CHR 0x0A]) ls) @ rest)
           = int (length ls) + (if rest = [] then 0 else 1)"
proof -
  let ?t = "concat (map (\<lambda>l. l @ [CHR 0x0A]) ls) @ rest"
  from tl have "filter (\<lambda>c. c = CHR 0x0A) rest = []" by (auto simp: filter_empty_conv)
  with filter_nl_lines [OF nl] have cnt: "length (filter (\<lambda>c. c = CHR 0x0A) ?t) = length ls"
    by simp
  have ends: "endsWith_nl ?t = (rest = [])"
  proof (cases "rest = []")
    case True
    with ne have "ls \<noteq> []" by simp
    from last_lines [OF this] True show ?thesis by (simp add: endsWith_nl_def)
  next
    case False
    from False have "last rest \<in> set rest" by (rule last_in_set)
    with tl have "last rest \<noteq> CHR 0x0A" by auto
    with False show ?thesis by (simp add: endsWith_nl_def)
  qed
  show ?thesis unfolding countLines_def length_split_nl cnt ends by simp
qed

lemma blockRange_eq:
  assumes "0 \<le> a" and "a \<le> b" and "b < lineCount d"
  shows "blockRange d a b =
           Inr \<lparr>start = \<lparr>line = a, character = 0\<rparr>,
                end' = lineBreakEnd d b\<rparr>"
  using assms
  by (auto simp: blockRange_def mkPosition_def rangeIncludingLineBreak_end_def lineAt_def
        mkRange_def isBefore_def lineBreakEnd_def)

lemma blockRange_Inr:
  assumes "blockRange d a b = Inr r"
  shows "0 \<le> a \<and> 0 \<le> b \<and> b < lineCount d"
  using assms
  by (auto simp: blockRange_def mkPosition_def rangeIncludingLineBreak_end_def lineAt_def
        split: if_splits sum.splits)

lemma blockRange_shape:
  assumes "blockRange d a (a + n - 1) = Inr r" and "1 \<le> n"
  shows "0 \<le> a \<and> start r = \<lparr>line = a, character = 0\<rparr> \<and>
         isBeforeOrEqual (end' r) \<lparr>line = a + n, character = 0\<rparr>"
proof -
  from assms(1) have b: "0 \<le> a" "a + n - 1 < lineCount d"
    using blockRange_Inr [OF assms(1)]
    by (auto simp: blockRange_def mkPosition_def split: if_splits)
  from assms(2) have le: "a \<le> a + n - 1" by simp
  from blockRange_eq [OF b(1) le b(2)] assms(1)
  have "r = \<lparr>start = \<lparr>line = a, character = 0\<rparr>, end' = lineBreakEnd d (a + n - 1)\<rparr>" by simp
  with b(1) show ?thesis by (simp add: lineBreakEnd_def isBeforeOrEqual_def)
qed

lemma decoRangeOf_block:
  assumes "0 \<le> a" and "a \<le> b" and "b < lineCount d" and "d \<noteq> []"
  shows "\<exists>dr. decoRangeOf d
           \<lparr>start = \<lparr>line = a, character = 0\<rparr>,
            end' = lineBreakEnd d b\<rparr> = Inr dr"
proof (cases "b + 1 < lineCount d")
  case True
  with assms show ?thesis by (simp add: decoRangeOf_def lineAt_def lineBreakEnd_def)
next
  case False
  show ?thesis
  proof (cases "b = 0")
    case True
    with False assms(3) have "length (split_nl d) = Suc 0"
      using split_nl_not_Nil [of d] by (cases "split_nl d") (simp_all add: lineCount_def)
    then have "split_nl d = [d]" by (rule split_nl_single)
    with True assms(4) False show ?thesis by (simp add: decoRangeOf_def lineBreakEnd_def)
  next
    case nz: False
    with assms False show ?thesis by (simp add: decoRangeOf_def lineAt_def lineBreakEnd_def)
  qed
qed

lemma decoRangeOf_col0:
  assumes "character (end' r) = 0"
  shows "decoRangeOf d r =
           (if line (end' r) - 1 < 0 \<or> lineCount d \<le> line (end' r) - 1
            then Inl (IllegalLine (line (end' r) - 1))
            else Inr (mkRange (start r)
                   \<lparr>line = line (end' r) - 1,
                    character = int (length (split_nl d ! nat (line (end' r) - 1)))\<rparr>))"
  using assms by (simp add: decoRangeOf_def lineAt_def)

lemma mkRange4_shift:
  assumes "validRange r" and "0 \<le> line (start r) + delta"
  shows "mkRange4 (line (start r) + delta) (character (start r))
                  (line (end' r) + delta) (character (end' r)) = Inr (shiftLines delta r)"
proof -
  from assms have le: "0 \<le> line (end' r) + delta"
    by (auto simp: validRange_def isBeforeOrEqual_def)
  show ?thesis
  proof (cases "isBefore (start r) (end' r)")
    case True
    with assms le show ?thesis
      by (simp add: mkRange4_def mkPosition_def mkRange_def isBefore_def validRange_def shiftLines_def)
  next
    case False
    with assms(1) have eq: "line (start r) = line (end' r)" "character (start r) = character (end' r)"
      by (auto simp: validRange_def isBeforeOrEqual_def isBefore_def)
    with assms le show ?thesis
      by (simp add: mkRange4_def mkPosition_def mkRange_def isBefore_def validRange_def shiftLines_def)
  qed
qed

lemma reanchor_ok:
  "\<forall>c\<in>set xs. validRange (change_range c) \<and> 0 \<le> line (start (change_range c)) + delta \<Longrightarrow>
   reanchor delta xs = (None, map (\<lambda>c. c\<lparr>change_range := shiftLines delta (change_range c)\<rparr>) xs)"
  by (induction xs) (simp_all add: mkRange4_shift Let_def)

subsection \<open>The loop of markChanges\<close>

lemma emitsI:
  assumes "pending s' = pending s @ [ch]" and "change_id ch = nextChangeIdLocal s"
      and "nextChangeIdLocal s' = Suc (nextChangeIdLocal s)" and "li s' = li s + n" and "0 \<le> n"
      and "0 \<le> li s \<and> start (change_range ch) = \<lparr>line = li s, character = 0\<rparr> \<and>
           isBeforeOrEqual (end' (change_range ch)) \<lparr>line = li s + n, character = 0\<rparr>"
      and "kind ch = Added \<longrightarrow> end' (change_range ch) = \<lparr>line = li s, character = 0\<rparr>"
  shows "emits s s'"
  unfolding emits_def using assms by blast

lemma changedStep_emits:
  assumes "changedStep editor part nxt s = Inr s'"
  shows "emits s s'"
proof -
  define n where "n = countLines (part_value part)"
  have n1: "1 \<le> n" unfolding n_def by (rule countLines_pos)
  from assms obtain r dr where r: "blockRange (editor_document editor) (li s) (li s + n - 1) = Inr r"
    and s': "s' = s\<lparr>pending := pending s @
                  [\<lparr>change_id = nextChangeIdLocal s, kind = Changed, change_range = r,
                    remoteText = part_value nxt\<rparr>],
                nextChangeIdLocal := nextChangeIdLocal s + 1,
                changedDecos := changedDecos s @
                  [\<lparr>deco_range = dr, hoverMessage = makeHover \<lparr>change_id = nextChangeIdLocal s, kind = Changed, change_range = r,
                    remoteText = part_value nxt\<rparr> (editor_uri editor)\<rparr>],
                li := li s + n\<rparr>"
    unfolding changedStep_def Let_def n_def by (auto split: sum.splits)
  show ?thesis
    by (rule emitsI [where n = n and ch = "\<lparr>change_id = nextChangeIdLocal s, kind = Changed,
          change_range = r, remoteText = part_value nxt\<rparr>"])
       (use n1 blockRange_shape [OF r n1] in \<open>simp_all add: s'\<close>)
qed

lemma removedStep_emits:
  assumes "removedStep editor part s = Inr s'"
  shows "emits s s'"
proof -
  define n where "n = countLines (part_value part)"
  have n1: "1 \<le> n" unfolding n_def by (rule countLines_pos)
  from assms obtain r dr where r: "blockRange (editor_document editor) (li s) (li s + n - 1) = Inr r"
    and s': "s' = s\<lparr>pending := pending s @
                  [\<lparr>change_id = nextChangeIdLocal s, kind = Removed, change_range = r,
                    remoteText = []\<rparr>],
                nextChangeIdLocal := nextChangeIdLocal s + 1,
                removedDecos := removedDecos s @
                  [\<lparr>deco_range = dr, hoverMessage = makeHover \<lparr>change_id = nextChangeIdLocal s, kind = Removed, change_range = r,
                    remoteText = []\<rparr> (editor_uri editor)\<rparr>],
                li := li s + n\<rparr>"
    unfolding removedStep_def Let_def n_def by (auto split: sum.splits)
  show ?thesis
    by (rule emitsI [where n = n and ch = "\<lparr>change_id = nextChangeIdLocal s, kind = Removed,
          change_range = r, remoteText = []\<rparr>"])
       (use n1 blockRange_shape [OF r n1] in \<open>simp_all add: s'\<close>)
qed

lemma addedStep_emits:
  assumes "addedStep editor part s = Inr s'"
  shows "emits s s'"
proof -
  define r where "r = \<lparr>start = \<lparr>line = li s, character = 0\<rparr>, end' = \<lparr>line = li s, character = 0\<rparr>\<rparr>"
  have mk: "mkRange4 (li s) 0 (li s) 0 = (if li s < 0 then Inl IllegalArgument else Inr r)"
    by (simp add: mkRange4_def mkPosition_def mkRange_def isBefore_def r_def)
  from assms have li0: "0 \<le> li s"
    unfolding addedStep_def Let_def mk by (auto split: if_splits)
  from assms li0 obtain dr where
    s': "s' = s\<lparr>pending := pending s @
                  [\<lparr>change_id = nextChangeIdLocal s, kind = Added, change_range = r,
                    remoteText = part_value part\<rparr>],
                nextChangeIdLocal := nextChangeIdLocal s + 1,
                addedDecos := addedDecos s @
                  [\<lparr>deco_range = dr, hoverMessage = makeHover \<lparr>change_id = nextChangeIdLocal s, kind = Added, change_range = r,
                    remoteText = part_value part\<rparr> (editor_uri editor)\<rparr>]\<rparr>"
    unfolding addedStep_def Let_def mk by (auto split: sum.splits)
  show ?thesis
    by (rule emitsI [where n = 0 and ch = "\<lparr>change_id = nextChangeIdLocal s, kind = Added,
          change_range = r, remoteText = part_value part\<rparr>"])
       (use li0 in \<open>simp_all add: s' r_def isBeforeOrEqual_def\<close>)
qed

lemma markLoop_preserves:
  assumes "\<And>s s'. I s \<Longrightarrow> emits s s' \<Longrightarrow> I s'"
      and "\<And>s n. I s \<Longrightarrow> 0 \<le> n \<Longrightarrow> I (s\<lparr>li := li s + n\<rparr>)"
      and "markLoop editor diffs s = Inr s'" and "I s"
  shows "I s'"
  using assms(3,4)
proof (induction diffs arbitrary: s rule: length_induct)
  case (1 diffs)
  show ?case
  proof (cases diffs)
    case Nil
    with 1 show ?thesis by simp
  next
    case (Cons part rest)
    have IH: "\<And>ys t. length ys < length diffs \<Longrightarrow> markLoop editor ys t = Inr s' \<Longrightarrow> I t \<Longrightarrow> I s'"
      using 1(1) by blast
    consider (chg) "removed part" "nextAdded rest"
      | (rem) "removed part" "\<not> nextAdded rest"
      | (add) "\<not> removed part" "added part"
      | (eq) "\<not> removed part" "\<not> added part" by blast
    then show ?thesis
    proof cases
      case chg
      with 1(2) Cons obtain t where t: "changedStep editor part (hd rest) s = Inr t"
        "markLoop editor (tl rest) t = Inr s'" by (auto split: sum.splits)
      from t(1) 1(3) have "I t" using assms(1) changedStep_emits by blast
      moreover have "length (tl rest) < length diffs" using Cons by simp
      ultimately show ?thesis using IH t(2) by blast
    next
      case rem
      with 1(2) Cons obtain t where t: "removedStep editor part s = Inr t"
        "markLoop editor rest t = Inr s'" by (auto split: sum.splits)
      from t(1) 1(3) have "I t" using assms(1) removedStep_emits by blast
      moreover have "length rest < length diffs" using Cons by simp
      ultimately show ?thesis using IH t(2) by blast
    next
      case add
      with 1(2) Cons obtain t where t: "addedStep editor part s = Inr t"
        "markLoop editor rest t = Inr s'" by (auto split: sum.splits)
      from t(1) 1(3) have "I t" using assms(1) addedStep_emits by blast
      moreover have "length rest < length diffs" using Cons by simp
      ultimately show ?thesis using IH t(2) by blast
    next
      case eq
      with 1(2) Cons have t: "markLoop editor rest (s\<lparr>li := li s + countLines (part_value part)\<rparr>) = Inr s'"
        by simp
      have "0 \<le> countLines (part_value part)" using countLines_pos [of "part_value part"] by simp
      with 1(3) have "I (s\<lparr>li := li s + countLines (part_value part)\<rparr>)" by (rule assms(2))
      moreover have "length rest < length diffs" using Cons by simp
      ultimately show ?thesis using IH t by blast
    qed
  qed
qed

lemma markLoop_ids:
  assumes "markLoop editor diffs (initialMark n0) = Inr s'"
  shows "map change_id (pending s') = [n0 ..< nextChangeIdLocal s'] \<and> n0 \<le> nextChangeIdLocal s'"
proof -
  define I where "I = (\<lambda>s::mark_state. map change_id (pending s) = [n0 ..< nextChangeIdLocal s] \<and> n0 \<le> nextChangeIdLocal s)"
  have "I s'"
  proof (rule markLoop_preserves [where I = I, OF _ _ assms])
    show "I (initialMark n0)" by (simp add: I_def initialMark_def)
  next
    fix s t assume "I s" "emits s t"
    then show "I t" by (auto simp: I_def emits_def)
  next
    fix s :: mark_state and n :: int assume "I s"
    then show "I (s\<lparr>li := li s + n\<rparr>)" by (simp add: I_def)
  qed
  then show ?thesis by (simp add: I_def)
qed

lemma markLoop_ordered:
  assumes "markLoop editor diffs (initialMark n0) = Inr s'"
  shows "sorted_wrt precedes (pending s')"
proof -
  define I where "I = (\<lambda>s::mark_state. sorted_wrt precedes (pending s) \<and>
     (\<forall>c\<in>set (pending s). isBeforeOrEqual (end' (change_range c)) \<lparr>line = li s, character = 0\<rparr> \<and>
         line (start (change_range c)) \<le> li s))"
  have "I s'"
  proof (rule markLoop_preserves [where I = I, OF _ _ assms])
    show "I (initialMark n0)" by (simp add: I_def initialMark_def)
  next
    fix s t assume I: "I s" and "emits s t"
    then obtain ch n where e: "pending t = pending s @ [ch]" "li t = li s + n" "0 \<le> n"
      "start (change_range ch) = \<lparr>line = li s, character = 0\<rparr>"
      "isBeforeOrEqual (end' (change_range ch)) \<lparr>line = li s + n, character = 0\<rparr>"
      by (auto simp: emits_def)
    have mono: "isBeforeOrEqual p \<lparr>line = li s, character = 0\<rparr> \<Longrightarrow>
                isBeforeOrEqual p \<lparr>line = li s + n, character = 0\<rparr>" for p
      using e(3) by (auto simp: isBeforeOrEqual_def)
    from I e show "I t"
      by (auto simp: I_def sorted_wrt_append precedes_def mono)
  next
    fix s :: mark_state and n :: int assume "I s" "0 \<le> n"
    then show "I (s\<lparr>li := li s + n\<rparr>)"
      by (auto simp: I_def isBeforeOrEqual_def)
  qed
  then show ?thesis by (simp add: I_def)
qed

lemma markChanges_ids:
  assumes "markChanges editor diffs w = Inr w'"
  shows "\<exists>ps. pendingByDoc w' (editor_uri editor) = Some ps \<and>
           map change_id ps = [nextChangeId w ..< nextChangeId w'] \<and>
           nextChangeId w \<le> nextChangeId w'"
proof -
  from assms obtain s where s: "markLoop editor diffs (initialMark (nextChangeId w)) = Inr s"
    and w': "pendingByDoc w' (editor_uri editor) = Some (pending s)"
            "nextChangeId w' = nextChangeIdLocal s"
    by (auto simp: markChanges_def split: sum.splits)
  from markLoop_ids [OF s] w' show ?thesis by simp
qed

lemma separated_tl: "separated (p # rest) \<Longrightarrow> separated rest"
  by (cases rest) auto

lemma separated_tl2: "separated (p # rest) \<Longrightarrow> separated (tl rest)"
  by (cases rest) (auto dest: separated_tl)

lemma changedStep_li:
  "changedStep editor part nxt s = Inr s' \<Longrightarrow> li s' = li s + countLines (part_value part)"
  unfolding changedStep_def Let_def by (auto split: sum.splits)

lemma removedStep_li:
  "removedStep editor part s = Inr s' \<Longrightarrow> li s' = li s + countLines (part_value part)"
  unfolding removedStep_def Let_def by (auto split: sum.splits)

lemma addedStep_li: "addedStep editor part s = Inr s' \<Longrightarrow> li s' = li s"
  unfolding addedStep_def Let_def by (auto split: sum.splits)

lemma emits_strict:
  assumes "emits s t" and "sorted_wrt startsBefore (pending s)"
      and "\<forall>c\<in>set (pending s). line (start (change_range c)) < li s"
  shows "sorted_wrt startsBefore (pending t) \<and>
         (\<forall>c\<in>set (pending t). line (start (change_range c)) \<le> li s)"
proof -
  from assms(1) obtain ch where ch: "pending t = pending s @ [ch]"
    "start (change_range ch) = \<lparr>line = li s, character = 0\<rparr>"
    by (auto simp: emits_def)
  from assms(3) have le: "\<forall>c\<in>set (pending s). line (start (change_range c)) \<le> li s"
    by force
  from assms(2,3) ch have "sorted_wrt startsBefore (pending t)"
    by (simp add: sorted_wrt_append startsBefore_def)
  moreover from le ch have "\<forall>c\<in>set (pending t). line (start (change_range c)) \<le> li s"
    by simp
  ultimately show ?thesis by blast
qed

lemma markLoop_strict:
  assumes "markLoop editor diffs s = Inr s'" and "separated diffs"
      and "sorted_wrt startsBefore (pending s)"
      and "\<forall>c\<in>set (pending s). line (start (change_range c)) \<le> li s"
      and "(\<exists>p rest. diffs = p # rest \<and> (removed p \<or> added p)) \<longrightarrow>
           (\<forall>c\<in>set (pending s). line (start (change_range c)) < li s)"
  shows "sorted_wrt startsBefore (pending s')"
  using assms
proof (induction diffs arbitrary: s rule: length_induct)
  case (1 diffs)
  show ?case
  proof (cases diffs)
    case Nil
    with 1 show ?thesis by simp
  next
    case (Cons part rest)
    have IH: "\<And>ys t. length ys < length diffs \<Longrightarrow> markLoop editor ys t = Inr s' \<Longrightarrow>
        separated ys \<Longrightarrow> sorted_wrt startsBefore (pending t) \<Longrightarrow>
        \<forall>c\<in>set (pending t). line (start (change_range c)) < li t \<Longrightarrow>
        sorted_wrt startsBefore (pending s')"
    proof -
      fix ys t
      assume a: "length ys < length diffs" "markLoop editor ys t = Inr s'" "separated ys"
        "sorted_wrt startsBefore (pending t)"
        "\<forall>c\<in>set (pending t). line (start (change_range c)) < li t"
      from a(5) have "\<forall>c\<in>set (pending t). line (start (change_range c)) \<le> li t" by force
      with 1(1) a show "sorted_wrt startsBefore (pending s')" by blast
    qed
    have n1: "1 \<le> countLines (part_value part)" by (rule countLines_pos)
    consider (chg) "removed part" "nextAdded rest"
      | (rem) "removed part" "\<not> nextAdded rest"
      | (add) "\<not> removed part" "added part"
      | (eq) "\<not> removed part" "\<not> added part" by blast
    then show ?thesis
    proof cases
      case chg
      with 1(2) Cons obtain t where t: "changedStep editor part (hd rest) s = Inr t"
        "markLoop editor (tl rest) t = Inr s'" by (auto split: sum.splits)
      from chg Cons 1(6) have lt: "\<forall>c\<in>set (pending s). line (start (change_range c)) < li s"
        by blast
      from emits_strict [OF changedStep_emits [OF t(1)] 1(4) lt] changedStep_li [OF t(1)] n1
      have "sorted_wrt startsBefore (pending t)"
        "\<forall>c\<in>set (pending t). line (start (change_range c)) < li t" by force+
      moreover have "length (tl rest) < length diffs" using Cons by simp
      moreover have "separated (tl rest)" using 1(3) Cons by (auto dest: separated_tl2)
      ultimately show ?thesis using IH t(2) by blast
    next
      case rem
      with 1(2) Cons obtain t where t: "removedStep editor part s = Inr t"
        "markLoop editor rest t = Inr s'" by (auto split: sum.splits)
      from rem Cons 1(6) have lt: "\<forall>c\<in>set (pending s). line (start (change_range c)) < li s"
        by blast
      from emits_strict [OF removedStep_emits [OF t(1)] 1(4) lt] removedStep_li [OF t(1)] n1
      have "sorted_wrt startsBefore (pending t)"
        "\<forall>c\<in>set (pending t). line (start (change_range c)) < li t" by force+
      moreover have "length rest < length diffs" using Cons by simp
      moreover have "separated rest" using 1(3) Cons by (auto dest: separated_tl)
      ultimately show ?thesis using IH t(2) by blast
    next
      case add
      with 1(2) Cons obtain t where t: "addedStep editor part s = Inr t"
        "markLoop editor rest t = Inr s'" by (auto split: sum.splits)
      from add Cons 1(6) have lt: "\<forall>c\<in>set (pending s). line (start (change_range c)) < li s"
        by blast
      from emits_strict [OF addedStep_emits [OF t(1)] 1(4) lt] addedStep_li [OF t(1)]
      have st: "sorted_wrt startsBefore (pending t)"
        "\<forall>c\<in>set (pending t). line (start (change_range c)) \<le> li t" by force+
      have len: "length rest < length diffs" using Cons by simp
      have sep: "separated rest" using 1(3) Cons by (auto dest: separated_tl)
      have nxt: "(\<exists>p rest'. rest = p # rest' \<and> (removed p \<or> added p)) \<longrightarrow>
           (\<forall>c\<in>set (pending t). line (start (change_range c)) < li t)"
        using 1(3) Cons add by auto
      from 1(1) len t(2) sep st nxt show ?thesis by blast
    next
      case eq
      with 1(2) Cons have t: "markLoop editor rest (s\<lparr>li := li s + countLines (part_value part)\<rparr>) = Inr s'"
        by simp
      from 1(5) n1 have "\<forall>c\<in>set (pending (s\<lparr>li := li s + countLines (part_value part)\<rparr>)).
          line (start (change_range c)) < li (s\<lparr>li := li s + countLines (part_value part)\<rparr>)"
        by force
      moreover have "sorted_wrt startsBefore (pending (s\<lparr>li := li s + countLines (part_value part)\<rparr>))"
        using 1(4) by simp
      moreover have "length rest < length diffs" using Cons by simp
      moreover have "separated rest" using 1(3) Cons by (auto dest: separated_tl)
      ultimately show ?thesis using IH t by blast
    qed
  qed
qed

lemma changedStep_lineDelta:
  assumes "changedStep editor part nxt s = Inr s'"
      and "li s + countLines (part_value part) < lineCount (editor_document editor)"
  shows "lineDelta (last (pending s')) = newlineCount (part_value nxt) - countLines (part_value part)"
proof -
  define n where "n = countLines (part_value part)"
  define d where "d = editor_document editor"
  have n1: "1 \<le> n" unfolding n_def by (rule countLines_pos)
  from assms(1) obtain r where r: "blockRange d (li s) (li s + n - 1) = Inr r"
    and last: "last (pending s') = \<lparr>change_id = nextChangeIdLocal s, kind = Changed,
                  change_range = r, remoteText = part_value nxt\<rparr>"
    unfolding changedStep_def Let_def n_def d_def by (auto split: sum.splits)
  from blockRange_Inr [OF r] have b: "0 \<le> li s" "li s + n - 1 < lineCount d" by simp_all
  from n1 have le: "li s \<le> li s + n - 1" by simp
  from blockRange_eq [OF b(1) le b(2)] r
  have "r = \<lparr>start = \<lparr>line = li s, character = 0\<rparr>, end' = lineBreakEnd d (li s + n - 1)\<rparr>"
    by simp
  with assms(2) have "line (end' r) - line (start r) = n"
    by (simp add: lineBreakEnd_def n_def d_def)
  then show ?thesis
    unfolding last n_def [symmetric] by (simp add: lineDelta_def Let_def newlines_split)
qed

lemma addedStep_lineDelta:
  assumes "addedStep editor part s = Inr s'"
  shows "lineDelta (last (pending s')) = newlineCount (part_value part)"
proof -
  from assms obtain r where
    "last (pending s') = \<lparr>change_id = nextChangeIdLocal s, kind = Added,
        change_range = r, remoteText = part_value part\<rparr>"
    unfolding addedStep_def Let_def by (auto split: sum.splits)
  then show ?thesis by (simp add: lineDelta_def Let_def newlines_split)
qed

lemma markLoop_addedZeroWidth:
  assumes "markLoop editor diffs (initialMark n0) = Inr s'"
  shows "addedZeroWidth (pending s')"
proof -
  define I where "I = (\<lambda>s::mark_state. addedZeroWidth (pending s))"
  have "I s'"
  proof (rule markLoop_preserves [where I = I, OF _ _ assms])
    show "I (initialMark n0)" by (simp add: I_def initialMark_def addedZeroWidth_def)
  next
    fix s t assume I: "I s" and "emits s t"
    then obtain ch where e: "pending t = pending s @ [ch]"
      "start (change_range ch) = \<lparr>line = li s, character = 0\<rparr>"
      "kind ch = Added \<longrightarrow> end' (change_range ch) = \<lparr>line = li s, character = 0\<rparr>"
      by (auto simp: emits_def)
    have "\<exists>l. change_range ch =
           \<lparr>start = \<lparr>line = l, character = 0\<rparr>, end' = \<lparr>line = l, character = 0\<rparr>\<rparr>"
      if "kind ch = Added"
      using that e(2,3) by (intro exI [of _ "li s"]) (cases "change_range ch", simp)
    with I e(1) show "I t" by (auto simp: I_def addedZeroWidth_def)
  next
    fix s :: mark_state and n :: int assume "I s"
    then show "I (s\<lparr>li := li s + n\<rparr>)" by (simp add: I_def)
  qed
  then show ?thesis by (simp add: I_def)
qed

subsection \<open>The id counter along a run\<close>

lemma acceptChange_counter: "nextChangeId (acceptChange h docUri cid w) = nextChangeId w"
  by (simp add: acceptChange_def Let_def caught_def split: option.splits prod.splits)

lemma rejectChange_counter: "nextChangeId (rejectChange docUri cid w) = nextChangeId w"
  by (simp add: rejectChange_def Let_def split: option.splits)

lemma refresh_counter: "refreshDecorationsFor docUri w = Inr w' \<Longrightarrow> nextChangeId w' = nextChangeId w"
  by (auto simp: refreshDecorationsFor_def split: option.splits sum.splits)

lemma exec_counter: "nextChangeId w \<le> nextChangeId (exec c w)"
proof (cases c)
  case (MarkCmd editor diffs)
  show ?thesis
  proof (cases "markChanges editor diffs w")
    case (Inl e)
    with MarkCmd show ?thesis by simp
  next
    case (Inr w')
    from markChanges_ids [OF Inr] have "nextChangeId w \<le> nextChangeId w'" by blast
    with MarkCmd Inr show ?thesis by simp
  qed
next
  case (AcceptCmd h docUri cid)
  then show ?thesis by (simp add: acceptChange_counter)
next
  case (RejectCmd docUri cid)
  then show ?thesis by (simp add: rejectChange_counter)
next
  case (RefreshCmd docUri)
  show ?thesis
  proof (cases "refreshDecorationsFor docUri w")
    case (Inl e)
    with RefreshCmd show ?thesis by simp
  next
    case (Inr w')
    with RefreshCmd refresh_counter [OF Inr] show ?thesis by simp
  qed
qed

lemma run_counter: "nextChangeId w \<le> nextChangeId (run cmds w)"
  unfolding run_def
proof (induction cmds arbitrary: w)
  case Nil
  show ?case by simp
next
  case (Cons c cmds)
  have "nextChangeId w \<le> nextChangeId (exec c w)" by (rule exec_counter)
  also have "\<dots> \<le> nextChangeId (foldl (\<lambda>w c. exec c w) (exec c w) cmds)" by (rule Cons.IH)
  finally show ?case by simp
qed

subsection \<open>Added changes in the store\<close>

lemma reanchor_addedZeroWidth:
  "addedZeroWidth xs \<Longrightarrow> addedZeroWidth (snd (reanchor delta xs))"
proof (induction xs)
  case Nil
  then show ?case by simp
next
  case (Cons c xs)
  from Cons.prems have xs: "addedZeroWidth xs" by (simp add: addedZeroWidth_def)
  note IH = Cons.IH [OF xs]
  show ?case
  proof (cases "mkRange4 (line (start (change_range c)) + delta) (character (start (change_range c)))
                  (line (end' (change_range c)) + delta) (character (end' (change_range c)))")
    case (Inl e)
    with Cons.prems show ?thesis by (simp add: Let_def)
  next
    case (Inr r)
    have c': "\<exists>l. r = \<lparr>start = \<lparr>line = l, character = 0\<rparr>, end' = \<lparr>line = l, character = 0\<rparr>\<rparr>"
      if "kind c = Added"
    proof -
      from that Cons.prems obtain l where
        "change_range c = \<lparr>start = \<lparr>line = l, character = 0\<rparr>, end' = \<lparr>line = l, character = 0\<rparr>\<rparr>"
        by (auto simp: addedZeroWidth_def)
      with Inr show ?thesis
        by (auto simp: mkRange4_def mkPosition_def mkRange_def isBefore_def split: if_splits)
    qed
    from Inr IH c' show ?thesis
      by (auto simp: Let_def addedZeroWidth_def split: prod.splits)
  qed
qed

lemma addedZeroWidth_parts:
  "addedZeroWidth ps \<Longrightarrow> addedZeroWidth (take n ps) \<and> addedZeroWidth (drop n ps)"
  by (auto simp: addedZeroWidth_def dest: in_set_takeD in_set_dropD)

lemma addedZeroWidth_append:
  "addedZeroWidth xs \<Longrightarrow> addedZeroWidth ys \<Longrightarrow> addedZeroWidth (xs @ ys)"
  by (auto simp: addedZeroWidth_def)

lemma storeInv_update:
  "storeInv w \<Longrightarrow> addedZeroWidth ps \<Longrightarrow> pendingByDoc w' = (pendingByDoc w)(docUri \<mapsto> ps) \<Longrightarrow> storeInv w'"
  by (auto simp: storeInv_def split: if_splits)

lemma storeInv_delete:
  "storeInv w \<Longrightarrow> pendingByDoc w' = (pendingByDoc w)(docUri := None) \<Longrightarrow> storeInv w'"
  by (auto simp: storeInv_def split: if_splits)

lemma storeInv_same:
  "storeInv w \<Longrightarrow> pendingByDoc w' = pendingByDoc w \<Longrightarrow> storeInv w'"
  by (simp add: storeInv_def)

lemma storeInv_storePending:
  "storeInv w \<Longrightarrow> addedZeroWidth ps \<Longrightarrow> pendingByDoc w' = storePending docUri ps (pendingByDoc w) \<Longrightarrow> storeInv w'"
  unfolding storePending_def
  by (cases "ps = []") (auto intro: storeInv_update storeInv_delete)

lemma markChanges_storeInv:
  assumes "markChanges editor diffs w = Inr w'" and "storeInv w"
  shows "storeInv w'"
proof -
  from assms(1) obtain s where s: "markLoop editor diffs (initialMark (nextChangeId w)) = Inr s"
    and w': "pendingByDoc w' = (pendingByDoc w)(editor_uri editor \<mapsto> pending s)"
    by (auto simp: markChanges_def split: sum.splits)
  from assms(2) markLoop_addedZeroWidth [OF s] w' show ?thesis by (rule storeInv_update)
qed

lemma rejectChange_storeInv:
  assumes "storeInv w"
  shows "storeInv (rejectChange docUri cid w)"
proof (cases "pendingByDoc w docUri")
  case None
  with assms show ?thesis by (simp add: rejectChange_def)
next
  case (Some ps)
  show ?thesis
  proof (cases "findIndex (\<lambda>ch. change_id ch = cid) ps")
    case None
    with Some assms show ?thesis by (simp add: rejectChange_def)
  next
    case (Some idx)
    from assms \<open>pendingByDoc w docUri = Some ps\<close> have ps: "addedZeroWidth ps"
      by (auto simp: storeInv_def)
    then have az: "addedZeroWidth (take idx ps @ drop (idx + 1) ps)"
      by (intro addedZeroWidth_append) (simp_all add: addedZeroWidth_parts)
    have "pendingByDoc (rejectChange docUri cid w) =
          storePending docUri (take idx ps @ drop (idx + 1) ps) (pendingByDoc w)"
      using Some \<open>pendingByDoc w docUri = Some ps\<close>
      by (simp add: rejectChange_def Let_def split: option.splits)
    with assms az show ?thesis by (rule storeInv_storePending)
  qed
qed

lemma acceptChange_storeInv:
  assumes "storeInv w"
  shows "storeInv (acceptChange h docUri cid w)"
proof (cases "pendingByDoc w docUri")
  case None
  with assms show ?thesis by (simp add: acceptChange_def)
next
  case (Some ps)
  note store = this
  from assms store have ps: "addedZeroWidth ps" by (auto simp: storeInv_def)
  show ?thesis
  proof (cases "findIndex (\<lambda>ch. change_id ch = cid) ps")
    case None
    with store assms show ?thesis by (simp add: acceptChange_def)
  next
    case (Some idx)
    note found = this
    show ?thesis
    proof (cases "documents w docUri")
      case None
      with store found have "pendingByDoc (acceptChange h docUri cid w) = pendingByDoc w"
        by (simp add: acceptChange_def Let_def caught_def)
      with assms show ?thesis by (rule storeInv_same)
    next
      case (Some d)
      note doc = this
      show ?thesis
      proof (cases "h = EditThrows")
        case True
        with store found doc have "pendingByDoc (acceptChange h docUri cid w) = pendingByDoc w"
          by (simp add: acceptChange_def Let_def caught_def)
        with assms show ?thesis by (rule storeInv_same)
      next
        case False
        obtain err later where re: "reanchor (lineDelta (ps ! idx)) (drop (idx + 1) ps) = (err, later)"
          by (cases "reanchor (lineDelta (ps ! idx)) (drop (idx + 1) ps)")
        have "addedZeroWidth (snd (reanchor (lineDelta (ps ! idx)) (drop (idx + 1) ps)))"
          by (rule reanchor_addedZeroWidth) (simp add: ps addedZeroWidth_parts)
        with re have later: "addedZeroWidth later" by simp
        show ?thesis
        proof (cases err)
          case None
          from ps later have az: "addedZeroWidth (take idx ps @ later)"
            by (intro addedZeroWidth_append) (simp_all add: addedZeroWidth_parts)
          have "pendingByDoc (acceptChange h docUri cid w) =
                storePending docUri (take idx ps @ later) (pendingByDoc w)"
            using store found doc False re None
            by (simp add: acceptChange_def Let_def)
          with assms az show ?thesis by (rule storeInv_storePending)
        next
          case (Some e)
          from ps later have az: "addedZeroWidth (take (idx + 1) ps @ later)"
            by (intro addedZeroWidth_append) (simp_all add: addedZeroWidth_parts)
          have "pendingByDoc (acceptChange h docUri cid w) =
                (pendingByDoc w)(docUri \<mapsto> take (idx + 1) ps @ later)"
            using store found doc False re Some
            by (simp add: acceptChange_def Let_def caught_def)
          with assms az show ?thesis by (rule storeInv_update)
        qed
      qed
    qed
  qed
qed

lemma refresh_storeInv:
  "refreshDecorationsFor docUri w = Inr w' \<Longrightarrow> storeInv w \<Longrightarrow> storeInv w'"
  by (auto simp: refreshDecorationsFor_def storeInv_def split: option.splits sum.splits)

lemma exec_storeInv: "storeInv w \<Longrightarrow> storeInv (exec c w)"
proof (cases c)
  case (MarkCmd editor diffs)
  assume inv: "storeInv w"
  show ?thesis
  proof (cases "markChanges editor diffs w")
    case (Inl e)
    with MarkCmd inv show ?thesis by simp
  next
    case (Inr w')
    with MarkCmd markChanges_storeInv [OF Inr inv] show ?thesis by simp
  qed
next
  case (AcceptCmd h docUri cid)
  assume "storeInv w"
  with AcceptCmd show ?thesis by (simp add: acceptChange_storeInv)
next
  case (RejectCmd docUri cid)
  assume "storeInv w"
  with RejectCmd show ?thesis by (simp add: rejectChange_storeInv)
next
  case (RefreshCmd docUri)
  assume inv: "storeInv w"
  show ?thesis
  proof (cases "refreshDecorationsFor docUri w")
    case (Inl e)
    with RefreshCmd inv show ?thesis by simp
  next
    case (Inr w')
    with RefreshCmd refresh_storeInv [OF Inr inv] show ?thesis by simp
  qed
qed

lemma run_storeInv: "storeInv w \<Longrightarrow> storeInv (run cmds w)"
  unfolding run_def
  by (induction cmds arbitrary: w) (simp_all add: exec_storeInv)

lemma startWorld_storeInv: "storeInv (startWorld docUri d)"
  by (simp add: storeInv_def startWorld_def)

subsection \<open>The renderer's loop\<close>

lemma refreshLoop_throws:
  assumes "\<forall>c\<in>set before. \<exists>dr. decoRangeOf d (change_range c) = Inr dr"
      and "decoRangeOf d (change_range ch) = Inl e"
  shows "refreshLoop d docUri (before @ ch # rest) acc = Inl e"
  using assms
proof (induction before arbitrary: acc)
  case Nil
  then show ?case by simp
next
  case (Cons c before)
  from Cons.prems(1) obtain dr where dr: "decoRangeOf d (change_range c) = Inr dr" by auto
  from Cons.prems have "\<And>acc. refreshLoop d docUri (before @ ch # rest) acc = Inl e"
    by (intro Cons.IH) auto
  with dr show ?case by (simp add: Let_def)
qed

subsection \<open>The examples, evaluated\<close>

lemmas example_defs = equalPart_def removedPart_def addedPart_def startWorld_def run_def
  localA_def remoteA_def diffsA_def editorA_def markedA_def removedAt_def
  localD_def remoteD_def diffsD_def editorD_def acceptedD_def
  localE_def remoteE_def diffsE_def editorE_def markedE_def changedE_def addedE_def

lemmas model_defs = markChanges_def initialMark_def changedStep_def removedStep_def addedStep_def
  nextAdded_def countLines_def endsWith_nl_def blockRange_def mkPosition_def mkRange_def mkRange4_def
  isBefore_def rangeIncludingLineBreak_end_def lineAt_def lineCount_def decoRangeOf_def makeHover_def
  Let_def

lemmas accept_defs = acceptChange_def lineDelta_def applyEdit_def replaceRange_def offsetAt_def
  storePending_def decorationsOf_def caught_def eval_nat_numeral

lemma markedA_store: "pendingByDoc markedA ''file:///A.jsx'' = Some [removedAt 1 1, removedAt 2 3]"
  by (simp add: example_defs model_defs)

lemma diffsA_ok: "lineDiffOf diffsA (normalize localA) (normalize remoteA)"
  by (simp add: example_defs lineDiffOf_def normalize_def)

lemma diffsD_ok: "lineDiffOf diffsD (normalize localD) (normalize remoteD)"
  by (simp add: example_defs lineDiffOf_def normalize_def)

lemma diffsE_ok: "lineDiffOf diffsE (normalize localE) (normalize remoteE)"
  by (simp add: example_defs lineDiffOf_def normalize_def)

lemma markedE_store:
  "pendingByDoc markedE ''file:///E.jsx'' = Some [removedAt 1 1, changedE, addedE]"
  by (simp add: example_defs model_defs)

lemma markE_returns:
  "markChanges editorE diffsE (startWorld ''file:///E.jsx'' localE) = Inr markedE"
  by (simp add: example_defs model_defs)

lemma markedE_doc: "documents markedE ''file:///E.jsx'' = Some localE"
  by (simp add: example_defs model_defs)

lemma markedE_visible: "findVisibleEditor markedE ''file:///E.jsx'' = Some localE"
  by (simp add: findVisibleEditor_def example_defs model_defs)

lemma acceptedD_store:
  "pendingByDoc acceptedD ''file:///D.jsx'' =
     Some [\<lparr>change_id = 2, kind = Added,
            change_range = \<lparr>start = \<lparr>line = 0, character = 0\<rparr>, end' = \<lparr>line = 0, character = 0\<rparr>\<rparr>,
            remoteText = ''X\<newline>''\<rparr>]"
  by (simp add: example_defs model_defs accept_defs)

lemma acceptedD_doc: "documents acceptedD ''file:///D.jsx'' = Some ''b\<newline>''"
  by (simp add: example_defs model_defs accept_defs)

lemma acceptedD_visible: "findVisibleEditor acceptedD ''file:///D.jsx'' = Some ''b\<newline>''"
  by (simp add: findVisibleEditor_def example_defs model_defs accept_defs)

lemma markEA_returns:
  "markChanges editorA diffsA (run [AcceptCmd EditApplied ''file:///E.jsx'' 1] markedE) = Inr markedEA"
  by (simp add: markedEA_def example_defs model_defs accept_defs)

lemma counters:
  "nextChangeId (startWorld ''file:///E.jsx'' localE) = 1"
  "nextChangeId markedE = 4"
  "nextChangeId (run [AcceptCmd EditApplied ''file:///E.jsx'' 1] markedE) = 4"
  "nextChangeId markedEA = 6"
  by (simp_all add: markedEA_def example_defs model_defs accept_defs)

lemma diffsE_separated: "separated diffsE"
  by (simp add: diffsE_def equalPart_def removedPart_def addedPart_def)

section \<open>Accepting every change (C1)\<close>

text \<open>
  C1: accepting every pending change of a document, in any order of ids, leaves the
  document equal to the normalized remote text. The code does not do this. For document A
  (already in normalized form) the differ's segments give two \<open>removed\<close> changes, lines 1
  and 3. Accepting id 1 deletes line 1, which moves the second change up by one line; the
  accept command shifts it by \<open>lineDelta = -(end.line - start.line + 1) = -2\<close>, to line 1.
  Accepting id 2 then deletes the line \<open>c\<close> instead of \<open>d\<close>. The theorem evaluates the
  commands.
\<close>

theorem accept_in_order_loses_line:
  "lineDiffOf diffsA (normalize localA) (normalize remoteA) \<and>
   normalize localA = localA \<and> normalize remoteA = remoteA \<and>
   pendingByDoc (run [MarkCmd editorA diffsA] (startWorld ''file:///A.jsx'' localA)) ''file:///A.jsx''
     = Some [removedAt 1 1, removedAt 2 3] \<and>
   pendingByDoc (run [MarkCmd editorA diffsA, AcceptCmd EditApplied ''file:///A.jsx'' 1]
        (startWorld ''file:///A.jsx'' localA)) ''file:///A.jsx''
     = Some [removedAt 2 1] \<and>
   documents (run [MarkCmd editorA diffsA, AcceptCmd EditApplied ''file:///A.jsx'' 1]
        (startWorld ''file:///A.jsx'' localA)) ''file:///A.jsx''
     = Some ''a\<newline>c\<newline>d\<newline>e\<newline>'' \<and>
   pendingByDoc (run [MarkCmd editorA diffsA, AcceptCmd EditApplied ''file:///A.jsx'' 1,
                      AcceptCmd EditApplied ''file:///A.jsx'' 2]
        (startWorld ''file:///A.jsx'' localA)) ''file:///A.jsx'' = None \<and>
   documents (run [MarkCmd editorA diffsA, AcceptCmd EditApplied ''file:///A.jsx'' 1,
                   AcceptCmd EditApplied ''file:///A.jsx'' 2]
        (startWorld ''file:///A.jsx'' localA)) ''file:///A.jsx''
     = Some ''a\<newline>d\<newline>e\<newline>'' \<and>
   ''a\<newline>d\<newline>e\<newline>'' \<noteq> normalize remoteA"
  by (simp add: example_defs model_defs accept_defs lineDiffOf_def normalize_def)

section \<open>The line delta (C2)\<close>

text \<open>
  C2, as stated, with the spanned lines of a range being the full document lines the change
  covers: the changed change of document E covers one line (\<open>d\<close>) and its remote text has
  two line breaks, so the stated formula gives \<open>2 - (1 - 1) = 2\<close>; the code computes
  \<open>2 - (4 - 3) = 1\<close>, which is the number of lines the document gains.
\<close>

theorem lineDelta_spanned_counterexample:
  "pendingByDoc markedE ''file:///E.jsx'' = Some [removedAt 1 1, changedE, addedE] \<and>
   countLines ''d\<newline>'' = 1 \<and>
   lineDelta changedE = 1 \<and>
   spec_lineDelta (kind changedE) (countLines ''d\<newline>'') (remoteText changedE) = 2 \<and>
   lineDelta changedE \<noteq>
     spec_lineDelta (kind changedE) (countLines ''d\<newline>'') (remoteText changedE)"
  by (simp add: markedE_store)
     (simp add: changedE_def lineDelta_def spec_lineDelta_def newlineCount_def countLines_def
        endsWith_nl_def)

text \<open>
  C2, amended: for an added change the line delta is the number of line breaks of the remote
  text; for a changed change it is that number minus \<open>end.line - start.line\<close>, which is the
  number \<open>n\<close> of full lines the change covers when its range includes the line break of
  its last line (the range then ends at column 0 of line \<open>l + n\<close>). So for the change that
  \<open>markChanges\<close> builds from a removed segment of \<open>n\<close> lines and an added segment, the delta
  is the added segment's line breaks minus \<open>n\<close>, and for the change built from an added
  segment it is the segment's line breaks.
\<close>

theorem lineDelta_changed_added:
  "(kind ch = Added \<longrightarrow> lineDelta ch = newlineCount (remoteText ch)) \<and>
   (kind ch = Changed \<longrightarrow>
      lineDelta ch = newlineCount (remoteText ch) -
        (line (end' (change_range ch)) - line (start (change_range ch)))) \<and>
   (kind ch = Changed \<and>
    change_range ch = \<lparr>start = \<lparr>line = l, character = 0\<rparr>, end' = lineBreakEnd d (l + n - 1)\<rparr> \<and>
    l + n < lineCount d \<longrightarrow>
      lineDelta ch = newlineCount (remoteText ch) - n) \<and>
   (changedStep editor part nxt s = Inr s' \<and>
    li s + countLines (part_value part) < lineCount (editor_document editor) \<longrightarrow>
      lineDelta (last (pending s')) = newlineCount (part_value nxt) - countLines (part_value part)) \<and>
   (addedStep editor part s = Inr s'' \<longrightarrow>
      lineDelta (last (pending s'')) = newlineCount (part_value part))"
  using changedStep_lineDelta [of editor part nxt s s'] addedStep_lineDelta [of editor part s s'']
  by (simp add: lineDelta_def Let_def newlines_split lineBreakEnd_def)

theorem lineDelta_changed_added_witness:
  "lineDelta changedE = 2 - 1 \<and> lineDelta addedE = 1"
  using lineDelta_changed_added [of changedE 3 localE 1]
        lineDelta_changed_added [of addedE 0 localE 0]
  by (simp add: changedE_def addedE_def localE_def lineBreakEnd_def lineCount_def newlineCount_def)

section \<open>Re-anchoring the later changes (C3)\<close>

text \<open>
  C3: when the change \<open>A\<close> at index \<open>idx\<close> is accepted and \<open>B\<close> is at a later index \<open>j\<close>,
  the stored list afterwards has \<open>B\<close> at index \<open>j - 1\<close> with both line numbers moved by the
  line delta computed for \<open>A\<close> and both character offsets, the id, the kind and the remote
  text as before; the changes before \<open>A\<close> are the same records as before. The accept has to
  run to its end: the document opens, the edit does not throw, and the shifted ranges of the
  later changes can be built (their line numbers stay non-negative).
\<close>

theorem accept_reanchors_later:
  assumes store: "pendingByDoc w docUri = Some ps"
      and found: "findIndex (\<lambda>ch. change_id ch = cid) ps = Some idx"
      and doc: "documents w docUri = Some d"
      and host: "h \<noteq> EditThrows"
      and later: "\<forall>c\<in>set (drop (Suc idx) ps).
                    validRange (change_range c) \<and>
                    0 \<le> line (start (change_range c)) + lineDelta (ps ! idx)"
      and j: "idx < j" "j < length ps"
  shows "\<exists>ps'. pendingByDoc (acceptChange h docUri cid w) docUri = Some ps' \<and>
           length ps' = length ps - 1 \<and>
           line (start (change_range (ps' ! (j - 1))))
             = line (start (change_range (ps ! j))) + lineDelta (ps ! idx) \<and>
           line (end' (change_range (ps' ! (j - 1))))
             = line (end' (change_range (ps ! j))) + lineDelta (ps ! idx) \<and>
           character (start (change_range (ps' ! (j - 1))))
             = character (start (change_range (ps ! j))) \<and>
           character (end' (change_range (ps' ! (j - 1))))
             = character (end' (change_range (ps ! j))) \<and>
           change_id (ps' ! (j - 1)) = change_id (ps ! j) \<and>
           kind (ps' ! (j - 1)) = kind (ps ! j) \<and>
           remoteText (ps' ! (j - 1)) = remoteText (ps ! j) \<and>
           (\<forall>i<idx. ps' ! i = ps ! i)"
proof -
  define delta where "delta = lineDelta (ps ! idx)"
  define sh :: "PendingChange \<Rightarrow> PendingChange" where "sh = (\<lambda>c. c\<lparr>change_range := shiftLines delta (change_range c)\<rparr>)"
  define ps' where "ps' = take idx ps @ map sh (drop (Suc idx) ps)"
  from found have idx: "idx < length ps" by (simp add: findIndex_Some)
  from later have re: "reanchor delta (drop (Suc idx) ps) = (None, map sh (drop (Suc idx) ps))"
    unfolding delta_def sh_def by (rule reanchor_ok)
  from j idx have ne: "ps' \<noteq> []" by (simp add: ps'_def)
  from store found doc host re ne
  have res: "pendingByDoc (acceptChange h docUri cid w) docUri = Some ps'"
    by (cases h) (simp_all add: acceptChange_def Let_def storePending_def ps'_def delta_def)
  from idx have len: "length ps' = length ps - 1" by (simp add: ps'_def)
  from j idx have nth: "ps' ! (j - Suc 0) = sh (ps ! j)"
    by (simp add: ps'_def nth_append min_def)
  have before: "\<forall>i<idx. ps' ! i = ps ! i"
    using idx by (simp add: ps'_def nth_append)
  have shifted:
    "line (start (change_range (sh c))) = line (start (change_range c)) + delta"
    "line (end' (change_range (sh c))) = line (end' (change_range c)) + delta"
    "character (start (change_range (sh c))) = character (start (change_range c))"
    "character (end' (change_range (sh c))) = character (end' (change_range c))"
    "change_id (sh c) = change_id c" "kind (sh c) = kind c" "remoteText (sh c) = remoteText c"
    for c by (simp_all add: sh_def shiftLines_def)
  from res len before show ?thesis
    unfolding delta_def [symmetric] by (intro exI [of _ ps']) (simp add: nth shifted)
qed

theorem accept_reanchors_later_witness:
  "\<exists>ps'. pendingByDoc (acceptChange EditApplied ''file:///E.jsx'' 2 markedE) ''file:///E.jsx'' = Some ps' \<and>
     length ps' = 2 \<and>
     line (start (change_range (ps' ! 1))) = 5 + 1 \<and>
     line (end' (change_range (ps' ! 1))) = 5 + 1 \<and>
     character (start (change_range (ps' ! 1))) = 0 \<and>
     character (end' (change_range (ps' ! 1))) = 0 \<and>
     change_id (ps' ! 1) = 3 \<and> kind (ps' ! 1) = Added \<and> remoteText (ps' ! 1) = ''X\<newline>'' \<and>
     ps' ! 0 = removedAt 1 1"
proof -
  have found: "findIndex (\<lambda>ch. change_id ch = 2) [removedAt 1 1, changedE, addedE] = Some 1"
    by (simp add: removedAt_def changedE_def)
  have delta: "lineDelta ([removedAt 1 1, changedE, addedE] ! 1) = 1"
    by (simp add: changedE_def lineDelta_def)
  have later: "\<forall>c\<in>set (drop (Suc 1) [removedAt 1 1, changedE, addedE]).
      validRange (change_range c) \<and>
      0 \<le> line (start (change_range c)) + lineDelta ([removedAt 1 1, changedE, addedE] ! 1)"
    unfolding delta by (simp add: addedE_def validRange_def isBeforeOrEqual_def)
  have host: "EditApplied \<noteq> EditThrows" by simp
  have j: "1 < (2::nat)" "2 < length [removedAt 1 1, changedE, addedE]" by simp_all
  from accept_reanchors_later [OF markedE_store found markedE_doc host later j]
  obtain ps' where
    "pendingByDoc (acceptChange EditApplied ''file:///E.jsx'' 2 markedE) ''file:///E.jsx'' = Some ps'"
    "length ps' = 2"
    "line (start (change_range (ps' ! 1))) = 5 + 1"
    "line (end' (change_range (ps' ! 1))) = 5 + 1"
    "character (start (change_range (ps' ! 1))) = 0"
    "character (end' (change_range (ps' ! 1))) = 0"
    "change_id (ps' ! 1) = 3" "kind (ps' ! 1) = Added" "remoteText (ps' ! 1) = ''X\<newline>''"
    "ps' ! 0 = removedAt 1 1"
    unfolding delta by (auto simp: addedE_def)
  then show ?thesis by blast
qed

section \<open>A failing edit (C4)\<close>

text \<open>
  C4, as stated: the store entry is unmodified whenever the edit fails. The host reports
  an edit it could not apply by resolving the promise to false, and the accept command
  does not read that value: in document A the change is removed from the list and the
  other change is re-anchored although the document is as before.
\<close>

theorem edit_not_applied_counterexample:
  "pendingByDoc markedA ''file:///A.jsx'' = Some [removedAt 1 1, removedAt 2 3] \<and>
   pendingByDoc (acceptChange EditNotApplied ''file:///A.jsx'' 1 markedA) ''file:///A.jsx''
     = Some [removedAt 2 1] \<and>
   documents (acceptChange EditNotApplied ''file:///A.jsx'' 1 markedA) ''file:///A.jsx''
     = Some localA \<and>
   pendingByDoc (acceptChange EditNotApplied ''file:///A.jsx'' 1 markedA) \<noteq> pendingByDoc markedA"
proof -
  have a: "pendingByDoc markedA ''file:///A.jsx'' = Some [removedAt 1 1, removedAt 2 3]"
    by (rule markedA_store)
  have b: "pendingByDoc (acceptChange EditNotApplied ''file:///A.jsx'' 1 markedA) ''file:///A.jsx''
     = Some [removedAt 2 1]"
    by (simp add: example_defs model_defs accept_defs)
  have c: "documents (acceptChange EditNotApplied ''file:///A.jsx'' 1 markedA) ''file:///A.jsx''
     = Some localA"
    by (simp add: example_defs model_defs accept_defs)
  have "pendingByDoc (acceptChange EditNotApplied ''file:///A.jsx'' 1 markedA) ''file:///A.jsx''
        \<noteq> pendingByDoc markedA ''file:///A.jsx''"
    unfolding a b by (simp add: removedAt_def)
  then have d: "pendingByDoc (acceptChange EditNotApplied ''file:///A.jsx'' 1 markedA) \<noteq> pendingByDoc markedA"
    by metis
  from a b c d show ?thesis by blast
qed

text \<open>
  C4, amended: when the host rejects the promise of the edit (the edit throws), the store,
  the documents and the messages are as before the command; when the edit resolves to false
  the store is changed exactly as if the edit had been applied.
\<close>

theorem edit_throws_store_unmodified:
  "pendingByDoc (acceptChange EditThrows docUri cid w) = pendingByDoc w \<and>
   documents (acceptChange EditThrows docUri cid w) = documents w \<and>
   infoMessages (acceptChange EditThrows docUri cid w) = infoMessages w \<and>
   pendingByDoc (acceptChange EditNotApplied docUri cid w)
     = pendingByDoc (acceptChange EditApplied docUri cid w)"
  by (simp add: acceptChange_def Let_def caught_def split: option.splits prod.splits)

section \<open>A removed segment followed by an added segment (C5)\<close>

text \<open>
  C5: the removed segment's text is \<open>n\<close> lines: the lines \<open>ls\<close>, each with its line break,
  and possibly a last line \<open>rest\<close> without one (\<open>n\<close> is the number of lines of \<open>ls\<close>, plus one
  when there is such a last line). When the loop meets this removed segment followed by an
  added one, with the cursor \<open>li\<close> in the document and line \<open>li + n - 1\<close> in the document, it
  appends exactly one change: kind changed, the next id, the range from \<open>(li, 0)\<close> to the
  end of line \<open>li + n - 1\<close> with its line break (column 0 of line \<open>li + n\<close>, or the end of
  the document's last line), the added segment's text as remote text. It goes on with the
  segments after the added one, the cursor moved by \<open>n\<close>, the number of removed lines only.
\<close>

theorem changed_merge_step:
  assumes rem: "removed part" and add: "added nxt"
      and seg: "part_value part = concat (map (\<lambda>l. l @ [CHR 0x0A]) ls) @ rest"
      and nl: "\<forall>l\<in>set ls. CHR 0x0A \<notin> set l" and tl: "CHR 0x0A \<notin> set rest"
      and ne: "ls \<noteq> [] \<or> rest \<noteq> []"
      and n: "n = int (length ls) + (if rest = [] then 0 else 1)"
      and li0: "0 \<le> li s"
      and inside: "li s + n - 1 < lineCount (editor_document editor)"
      and nonempty: "editor_document editor \<noteq> []"
  shows "\<exists>ch dr.
           ch = \<lparr>change_id = nextChangeIdLocal s, kind = Changed,
                 change_range =
                   \<lparr>start = \<lparr>line = li s, character = 0\<rparr>,
                    end' =
                      (if li s + n < lineCount (editor_document editor)
                       then \<lparr>line = li s + n, character = 0\<rparr>
                       else \<lparr>line = li s + n - 1,
                             character = int (length (split_nl (editor_document editor) !
                                                       nat (li s + n - 1)))\<rparr>)\<rparr>,
                 remoteText = part_value nxt\<rparr> \<and>
           markLoop editor (part # nxt # others) s =
           markLoop editor others
             (s\<lparr>pending := pending s @ [ch],
                nextChangeIdLocal := nextChangeIdLocal s + 1,
                changedDecos := changedDecos s @
                  [\<lparr>deco_range = dr, hoverMessage = makeHover ch (editor_uri editor)\<rparr>],
                li := li s + n\<rparr>)"
proof -
  define d where "d = editor_document editor"
  define r where "r = \<lparr>start = \<lparr>line = li s, character = 0\<rparr>,
      end' = (if li s + n < lineCount d then \<lparr>line = li s + n, character = 0\<rparr>
              else \<lparr>line = li s + n - 1,
                    character = int (length (split_nl d ! nat (li s + n - 1)))\<rparr>)\<rparr>"
  have r_eq: "r = \<lparr>start = \<lparr>line = li s, character = 0\<rparr>, end' = lineBreakEnd d (li s + n - 1)\<rparr>"
    by (simp add: r_def lineBreakEnd_def)
  have cn: "countLines (part_value part) = n"
    unfolding seg n by (rule countLines_lines [OF nl tl ne])
  have n1: "1 \<le> n" using countLines_pos [of "part_value part"] cn by simp
  with li0 have le: "li s \<le> li s + n - 1" by simp
  from inside have ins: "li s + n - 1 < lineCount d" by (simp add: d_def)
  from nonempty have ned: "d \<noteq> []" by (simp add: d_def)
  have br: "blockRange d (li s) (li s + n - 1) = Inr r"
    unfolding r_eq by (rule blockRange_eq [OF li0 le ins])
  obtain dr where dr: "decoRangeOf d r = Inr dr"
    unfolding r_eq using decoRangeOf_block [OF li0 le ins ned] by blast
  have "markLoop editor (part # nxt # others) s =
        (case changedStep editor part nxt s of Inl e \<Rightarrow> Inl e | Inr s' \<Rightarrow> markLoop editor others s')"
    using rem add by (simp add: nextAdded_def split: sum.splits)
  also have "changedStep editor part nxt s = Inr
             (s\<lparr>pending := pending s @
                  [\<lparr>change_id = nextChangeIdLocal s, kind = Changed,
                    change_range = r, remoteText = part_value nxt\<rparr>],
                nextChangeIdLocal := nextChangeIdLocal s + 1,
                changedDecos := changedDecos s @
                  [\<lparr>deco_range = dr,
                    hoverMessage = makeHover
                      \<lparr>change_id = nextChangeIdLocal s, kind = Changed,
                       change_range = r, remoteText = part_value nxt\<rparr> (editor_uri editor)\<rparr>],
                li := li s + n\<rparr>)"
    unfolding changedStep_def Let_def cn d_def [symmetric] br
    by (simp add: dr)
  finally show ?thesis
    unfolding r_def d_def by (intro exI [of _ dr] exI) simp
qed

theorem changed_merge_step_witness:
  "(\<exists>dr. markLoop editorE [removedPart ''d\<newline>e\<newline>'', addedPart ''D1\<newline>D2\<newline>'']
           ((initialMark 2)\<lparr>li := 3\<rparr>) =
         Inr ((initialMark 2)
               \<lparr>pending := [\<lparr>change_id = 2, kind = Changed,
                    change_range = \<lparr>start = \<lparr>line = 3, character = 0\<rparr>,
                                    end' = \<lparr>line = 5, character = 0\<rparr>\<rparr>,
                    remoteText = ''D1\<newline>D2\<newline>''\<rparr>],
                nextChangeIdLocal := 3,
                changedDecos := [\<lparr>deco_range = dr, hoverMessage =
                   \<lparr>hover_remote = ''D1\<newline>D2\<newline>'', hover_uri = ''file:///E.jsx'', hover_id = 2\<rparr>\<rparr>],
                li := 5\<rparr>)) \<and>
   (\<exists>dr. markLoop editorF [removedPart ''b\<newline>c'', addedPart ''B'']
           ((initialMark 1)\<lparr>li := 1\<rparr>) =
         Inr ((initialMark 1)
               \<lparr>pending := [\<lparr>change_id = 1, kind = Changed,
                    change_range = \<lparr>start = \<lparr>line = 1, character = 0\<rparr>,
                                    end' = \<lparr>line = 2, character = 1\<rparr>\<rparr>,
                    remoteText = ''B''\<rparr>],
                nextChangeIdLocal := 2,
                changedDecos := [\<lparr>deco_range = dr, hoverMessage =
                   \<lparr>hover_remote = ''B'', hover_uri = ''file:///F.jsx'', hover_id = 1\<rparr>\<rparr>],
                li := 3\<rparr>))"
proof -
  have add1: "added (addedPart ''D1\<newline>D2\<newline>'')" and add2: "added (addedPart ''B'')"
    by (simp_all add: addedPart_def)
  have rem1: "removed (removedPart ''d\<newline>e\<newline>'')" and rem2: "removed (removedPart ''b\<newline>c'')"
    by (simp_all add: removedPart_def)
  have seg1: "part_value (removedPart ''d\<newline>e\<newline>'') =
              concat (map (\<lambda>l. l @ [CHR 0x0A]) [''d'', ''e'']) @ []"
    by (simp add: removedPart_def)
  have seg2: "part_value (removedPart ''b\<newline>c'') =
              concat (map (\<lambda>l. l @ [CHR 0x0A]) [''b'']) @ ''c''"
    by (simp add: removedPart_def)
  have nl1: "\<forall>l\<in>set [''d'', ''e'']. CHR 0x0A \<notin> set l" and nl2: "\<forall>l\<in>set [''b'']. CHR 0x0A \<notin> set l"
    by simp_all
  have tl1: "CHR 0x0A \<notin> set ([]::string)" and tl2: "CHR 0x0A \<notin> set ''c''" by simp_all
  have ne1: "[''d'', ''e''] \<noteq> [] \<or> ([]::string) \<noteq> []" and ne2: "[''b''] \<noteq> [] \<or> ''c'' \<noteq> []"
    by simp_all
  have n1: "(2::int) = int (length [''d'', ''e'']) + (if ([]::string) = [] then 0 else 1)"
   and n2: "(2::int) = int (length [''b'']) + (if ''c'' = [] then 0 else 1)" by simp_all
  have li1: "0 \<le> li ((initialMark 2)\<lparr>li := 3\<rparr>)" and li2: "0 \<le> li ((initialMark 1)\<lparr>li := 1\<rparr>)"
    by simp_all
  have in1: "li ((initialMark 2)\<lparr>li := 3\<rparr>) + 2 - 1 < lineCount (editor_document editorE)"
    by (simp add: editorE_def localE_def lineCount_def)
  have in2: "li ((initialMark 1)\<lparr>li := 1\<rparr>) + 2 - 1 < lineCount (editor_document editorF)"
    by (simp add: editorF_def localF_def lineCount_def)
  have d1: "editor_document editorE \<noteq> []" and d2: "editor_document editorF \<noteq> []"
    by (simp_all add: editorE_def localE_def editorF_def localF_def)
  have 1: "\<exists>dr. markLoop editorE [removedPart ''d\<newline>e\<newline>'', addedPart ''D1\<newline>D2\<newline>'']
           ((initialMark 2)\<lparr>li := 3\<rparr>) =
         Inr ((initialMark 2)
               \<lparr>pending := [\<lparr>change_id = 2, kind = Changed,
                    change_range = \<lparr>start = \<lparr>line = 3, character = 0\<rparr>,
                                    end' = \<lparr>line = 5, character = 0\<rparr>\<rparr>,
                    remoteText = ''D1\<newline>D2\<newline>''\<rparr>],
                nextChangeIdLocal := 3,
                changedDecos := [\<lparr>deco_range = dr, hoverMessage =
                   \<lparr>hover_remote = ''D1\<newline>D2\<newline>'', hover_uri = ''file:///E.jsx'', hover_id = 2\<rparr>\<rparr>],
                li := 5\<rparr>)"
    using changed_merge_step [OF rem1 add1 seg1 nl1 tl1 ne1 n1 li1 in1 d1, of "[]"]
    by (simp add: initialMark_def addedPart_def editorE_def localE_def lineCount_def makeHover_def)
  have 2: "\<exists>dr. markLoop editorF [removedPart ''b\<newline>c'', addedPart ''B'']
           ((initialMark 1)\<lparr>li := 1\<rparr>) =
         Inr ((initialMark 1)
               \<lparr>pending := [\<lparr>change_id = 1, kind = Changed,
                    change_range = \<lparr>start = \<lparr>line = 1, character = 0\<rparr>,
                                    end' = \<lparr>line = 2, character = 1\<rparr>\<rparr>,
                    remoteText = ''B''\<rparr>],
                nextChangeIdLocal := 2,
                changedDecos := [\<lparr>deco_range = dr, hoverMessage =
                   \<lparr>hover_remote = ''B'', hover_uri = ''file:///F.jsx'', hover_id = 1\<rparr>\<rparr>],
                li := 3\<rparr>)"
    using changed_merge_step [OF rem2 add2 seg2 nl2 tl2 ne2 n2 li2 in2 d2, of "[]"]
    by (simp add: initialMark_def addedPart_def editorF_def localF_def lineCount_def makeHover_def
          eval_nat_numeral)
  from 1 2 show ?thesis by blast
qed

section \<open>The order of the ranges (C6)\<close>

text \<open>
  C6: in the list that \<open>markChanges\<close> stores, a change ends before or where every later
  change starts, and start lines ascend. This holds for every list of segments for which
  the loop returns. Two changes can start on the same line only when an added segment is
  directly followed by another added or removed segment; for a list of segments of the
  differ's form the start lines ascend strictly.
\<close>

theorem markChanges_ranges_ordered:
  assumes "markChanges editor diffs w = Inr w'"
  shows "\<exists>ps. pendingByDoc w' (editor_uri editor) = Some ps \<and>
           (\<forall>i j. i < j \<and> j < length ps \<longrightarrow>
              isBeforeOrEqual (end' (change_range (ps ! i))) (start (change_range (ps ! j))) \<and>
              line (start (change_range (ps ! i))) \<le> line (start (change_range (ps ! j)))) \<and>
           (separated diffs \<longrightarrow>
              (\<forall>i j. i < j \<and> j < length ps \<longrightarrow>
                 line (start (change_range (ps ! i))) < line (start (change_range (ps ! j)))))"
proof -
  from assms obtain s where s: "markLoop editor diffs (initialMark (nextChangeId w)) = Inr s"
    and w': "pendingByDoc w' (editor_uri editor) = Some (pending s)"
    by (auto simp: markChanges_def split: sum.splits)
  from markLoop_ordered [OF s] have "sorted_wrt precedes (pending s)" .
  then have ord: "\<forall>i j. i < j \<and> j < length (pending s) \<longrightarrow> precedes (pending s ! i) (pending s ! j)"
    by (simp add: sorted_wrt_iff_nth_less)
  have strict: "\<forall>i j. i < j \<and> j < length (pending s) \<longrightarrow>
      line (start (change_range (pending s ! i))) < line (start (change_range (pending s ! j)))"
    if sep: "separated diffs"
  proof -
    have "sorted_wrt startsBefore (pending s)"
      by (rule markLoop_strict [OF s sep]) (simp_all add: initialMark_def)
    then show ?thesis by (simp add: sorted_wrt_iff_nth_less startsBefore_def)
  qed
  from w' ord strict show ?thesis by (auto simp: precedes_def)
qed

theorem markChanges_ranges_ordered_witness:
  "\<exists>a b c. pendingByDoc markedE ''file:///E.jsx'' = Some [a, b, c] \<and>
     isBeforeOrEqual (end' (change_range a)) (start (change_range b)) \<and>
     isBeforeOrEqual (end' (change_range b)) (start (change_range c)) \<and>
     isBeforeOrEqual (end' (change_range a)) (start (change_range c)) \<and>
     line (start (change_range a)) < line (start (change_range b)) \<and>
     line (start (change_range b)) < line (start (change_range c))"
proof -
  from markChanges_ranges_ordered [OF markE_returns] diffsE_separated obtain ps where
    ps: "pendingByDoc markedE ''file:///E.jsx'' = Some ps"
    and ord: "\<forall>i j. i < j \<and> j < length ps \<longrightarrow>
              isBeforeOrEqual (end' (change_range (ps ! i))) (start (change_range (ps ! j))) \<and>
              line (start (change_range (ps ! i))) \<le> line (start (change_range (ps ! j)))"
    and strict: "\<forall>i j. i < j \<and> j < length ps \<longrightarrow>
              line (start (change_range (ps ! i))) < line (start (change_range (ps ! j)))"
    by (auto simp: editorE_def)
  from ps markedE_store have eq: "ps = [removedAt 1 1, changedE, addedE]" by simp
  have len: "length ps = 3" unfolding eq by simp
  have "isBeforeOrEqual (end' (change_range (ps ! 0))) (start (change_range (ps ! 1)))"
    using ord [rule_format, of 0 1] len by simp
  moreover
  have "isBeforeOrEqual (end' (change_range (ps ! 1))) (start (change_range (ps ! 2)))"
    using ord [rule_format, of 1 2] len by simp
  moreover
  have "isBeforeOrEqual (end' (change_range (ps ! 0))) (start (change_range (ps ! 2)))"
    using ord [rule_format, of 0 2] len by simp
  moreover
  have "line (start (change_range (ps ! 0))) < line (start (change_range (ps ! 1)))"
    using strict [rule_format, of 0 1] len by simp
  moreover
  have "line (start (change_range (ps ! 1))) < line (start (change_range (ps ! 2)))"
    using strict [rule_format, of 1 2] len by simp
  ultimately show ?thesis using ps unfolding eq by simp
qed

section \<open>Unknown document or id (C7)\<close>

text \<open>
  C7: accept and reject, called for a document without a store entry or with an id that no
  change of the document's list has, return the state as it was: store, documents,
  decorations and messages.
\<close>

theorem unknown_noop:
  "pendingByDoc w docUri = None \<or>
   (\<exists>ps. pendingByDoc w docUri = Some ps \<and> cid \<notin> change_id ` set ps) \<Longrightarrow>
   acceptChange h docUri cid w = w \<and> rejectChange docUri cid w = w"
proof (erule disjE)
  assume "pendingByDoc w docUri = None"
  then show ?thesis by (simp add: acceptChange_def rejectChange_def)
next
  assume "\<exists>ps. pendingByDoc w docUri = Some ps \<and> cid \<notin> change_id ` set ps"
  then obtain ps where ps: "pendingByDoc w docUri = Some ps" "cid \<notin> change_id ` set ps" by blast
  from ps(2) have "findIndex (\<lambda>ch. change_id ch = cid) ps = None"
    by (auto simp: findIndex_None)
  with ps(1) show ?thesis by (simp add: acceptChange_def rejectChange_def)
qed

theorem unknown_noop_witness:
  "acceptChange EditApplied ''file:///A.jsx'' 7 markedA = markedA \<and>
   rejectChange ''file:///A.jsx'' 7 markedA = markedA \<and>
   acceptChange EditApplied ''file:///B.jsx'' 1 markedA = markedA \<and>
   rejectChange ''file:///B.jsx'' 1 markedA = markedA"
proof -
  have a: "\<exists>ps. pendingByDoc markedA ''file:///A.jsx'' = Some ps \<and> 7 \<notin> change_id ` set ps"
    by (simp add: markedA_store removedAt_def)
  have b: "pendingByDoc markedA ''file:///B.jsx'' = None"
    by (simp add: example_defs model_defs)
  from a b show ?thesis
    using unknown_noop [of markedA "''file:///A.jsx''" 7 EditApplied]
          unknown_noop [of markedA "''file:///B.jsx''" 1 EditApplied]
    by simp
qed

section \<open>Rejecting a change (C8)\<close>

text \<open>
  C8: rejecting removes the first change with the id from the document's list (the only
  one when ids are distinct); the other changes are the same records in the same order, so
  their ranges are as before; the entry is deleted when the list becomes empty; the
  documents, the messages and the counter are as before.
\<close>

theorem reject_removes_exactly:
  assumes "pendingByDoc w docUri = Some ps"
      and "findIndex (\<lambda>ch. change_id ch = cid) ps = Some idx"
  shows "pendingByDoc (rejectChange docUri cid w) =
           storePending docUri (take idx ps @ drop (Suc idx) ps) (pendingByDoc w) \<and>
         (distinct (map change_id ps) \<longrightarrow>
            take idx ps @ drop (Suc idx) ps = filter (\<lambda>c. change_id c \<noteq> cid) ps) \<and>
         documents (rejectChange docUri cid w) = documents w \<and>
         infoMessages (rejectChange docUri cid w) = infoMessages w \<and>
         nextChangeId (rejectChange docUri cid w) = nextChangeId w"
  using assms remove_nth_filter [of change_id cid ps idx]
  by (simp add: rejectChange_def Let_def findVisibleEditor_def split: option.splits)

theorem reject_removes_exactly_witness:
  "pendingByDoc (rejectChange ''file:///A.jsx'' 1 markedA) ''file:///A.jsx'' = Some [removedAt 2 3] \<and>
   [removedAt 2 3] = filter (\<lambda>c. change_id c \<noteq> 1) [removedAt 1 1, removedAt 2 3] \<and>
   documents (rejectChange ''file:///A.jsx'' 1 markedA) ''file:///A.jsx'' = Some localA"
proof -
  have idx: "findIndex (\<lambda>ch. change_id ch = 1) [removedAt 1 1, removedAt 2 3] = Some 0"
    by (simp add: removedAt_def)
  have doc: "documents markedA ''file:///A.jsx'' = Some localA"
    by (simp add: example_defs model_defs)
  from reject_removes_exactly [OF markedA_store idx] doc show ?thesis
    by (simp add: storePending_def removedAt_def)
qed

section \<open>The id counter (C9)\<close>

text \<open>
  C9: a call of \<open>markChanges\<close> that returns gives its changes the consecutive ids from the
  counter's value before the call to its value after the call, and no command lowers the
  counter. So the ids of a call are below the ids of every later call, on any document and
  after any commands in between. (Ids are JavaScript numbers; they are exact integers up
  to \<open>2^53\<close>, and the model's \<open>nat\<close> does not bound them.)
\<close>

theorem change_ids_increase:
  assumes first: "markChanges e1 diffs1 w = Inr w1"
      and second: "markChanges e2 diffs2 (run cmds w1) = Inr w2"
  shows "\<exists>ps1 ps2.
           pendingByDoc w1 (editor_uri e1) = Some ps1 \<and>
           pendingByDoc w2 (editor_uri e2) = Some ps2 \<and>
           map change_id ps1 = [nextChangeId w ..< nextChangeId w1] \<and>
           map change_id ps2 = [nextChangeId (run cmds w1) ..< nextChangeId w2] \<and>
           nextChangeId w1 \<le> nextChangeId (run cmds w1) \<and>
           (\<forall>a\<in>set ps1. \<forall>b\<in>set ps2. change_id a < change_id b)"
proof -
  from markChanges_ids [OF first] obtain ps1 where
    1: "pendingByDoc w1 (editor_uri e1) = Some ps1"
       "map change_id ps1 = [nextChangeId w ..< nextChangeId w1]" by blast
  from markChanges_ids [OF second] obtain ps2 where
    2: "pendingByDoc w2 (editor_uri e2) = Some ps2"
       "map change_id ps2 = [nextChangeId (run cmds w1) ..< nextChangeId w2]" by blast
  have mono: "nextChangeId w1 \<le> nextChangeId (run cmds w1)" by (rule run_counter)
  have "change_id a < change_id b" if "a \<in> set ps1" "b \<in> set ps2" for a b
  proof -
    from that(1) have "change_id a \<in> set (map change_id ps1)" by simp
    then have a: "change_id a < nextChangeId w1" unfolding 1(2) by simp
    from that(2) have "change_id b \<in> set (map change_id ps2)" by simp
    then have "nextChangeId (run cmds w1) \<le> change_id b" unfolding 2(2) by simp
    with a mono show ?thesis by linarith
  qed
  with 1 2 mono show ?thesis by blast
qed

theorem change_ids_increase_witness:
  "\<exists>ps1 ps2. pendingByDoc markedE ''file:///E.jsx'' = Some ps1 \<and>
     pendingByDoc markedEA ''file:///A.jsx'' = Some ps2 \<and>
     map change_id ps1 = [1, 2, 3] \<and> map change_id ps2 = [4, 5]"
proof -
  from change_ids_increase [OF markE_returns markEA_returns] obtain ps1 ps2 where
    st: "pendingByDoc markedE (editor_uri editorE) = Some ps1"
        "pendingByDoc markedEA (editor_uri editorA) = Some ps2"
    and ids: "map change_id ps1 = [nextChangeId (startWorld ''file:///E.jsx'' localE) ..< nextChangeId markedE]"
        "map change_id ps2 =
           [nextChangeId (run [AcceptCmd EditApplied ''file:///E.jsx'' 1] markedE) ..< nextChangeId markedEA]"
    by blast
  have u: "[1 ..< 4] = [1, 2, 3::nat]" "[4 ..< 6] = [4, 5::nat]"
    by (simp_all add: upt_rec)
  from ids have "map change_id ps1 = [1, 2, 3]" "map change_id ps2 = [4, 5]"
    unfolding counters u by simp_all
  with st show ?thesis by (simp add: editorE_def editorA_def)
qed

section \<open>The renderer's trimming at column 0 (C10)\<close>

text \<open>
  C10, as stated: for every change whose range ends at column 0, added changes included,
  the display range ends on line \<open>end.line - 1\<close>. For the added change of document E, at
  \<open>(5, 0)\<close>, the renderer builds \<^verbatim>\<open>new Range((5, 0), (4, 1))\<close>; the start is after the end,
  the constructor swaps them, and the range painted is \<open>(4, 1) - (5, 0)\<close>: it ends on line 5.
\<close>

theorem added_display_range_counterexample:
  "pendingByDoc markedE ''file:///E.jsx'' = Some [removedAt 1 1, changedE, addedE] \<and>
   kind addedE = Added \<and> character (end' (change_range addedE)) = 0 \<and>
   line (end' (change_range addedE)) - 1 = 4 \<and>
   (\<exists>w' ds. refreshDecorationsFor ''file:///E.jsx'' markedE = Inr w' \<and>
       painted w' ''file:///E.jsx'' = Some ds \<and>
       map deco_range (addedDeco ds) =
         [\<lparr>start = \<lparr>line = 4, character = 1\<rparr>, end' = \<lparr>line = 5, character = 0\<rparr>\<rparr>]) \<and>
   line (end' \<lparr>start = \<lparr>line = 4, character = 1\<rparr>, end' = \<lparr>line = 5, character = 0\<rparr>\<rparr>)
     \<noteq> line (end' (change_range addedE)) - 1"
proof -
  have "\<exists>w' ds. refreshDecorationsFor ''file:///E.jsx'' markedE = Inr w' \<and>
       painted w' ''file:///E.jsx'' = Some ds \<and>
       map deco_range (addedDeco ds) =
         [\<lparr>start = \<lparr>line = 4, character = 1\<rparr>, end' = \<lparr>line = 5, character = 0\<rparr>\<rparr>]"
    by (simp add: refreshDecorationsFor_def markedE_visible markedE_store emptyDecorations_def
          removedAt_def changedE_def addedE_def localE_def decoRangeOf_def lineAt_def lineCount_def
          mkRange_def isBefore_def Let_def)
  then show ?thesis
    by (simp add: markedE_store) (simp add: addedE_def)
qed

text \<open>
  C10, amended: for a pending change whose range ends at column 0 (every added change in the
  store, in every state the process reaches: its range is zero-width at column 0, and
  re-anchoring keeps it so), the trimming branch is taken and
  the renderer asks the document for line \<open>end.line - 1\<close>. When that line is outside the
  document, \<open>refreshDecorationsFor\<close> throws for the first such change; for a change at line
  0 the line asked for is \<open>-1\<close>. When the line is in the document, the display range is built
  from the range's start and the end of that line: it ends on line \<open>end.line - 1\<close> when the
  start is before that position, and for a zero-width range it is the swapped range from
  the end of line \<open>end.line - 1\<close> to the range's own position.
\<close>

theorem refresh_trims_column0:
  assumes vis: "findVisibleEditor w docUri = Some d"
      and store: "pendingByDoc w docUri = Some (before @ ch # rest)"
      and ok: "\<forall>c\<in>set before. \<exists>dr. decoRangeOf d (change_range c) = Inr dr"
      and col0: "character (end' (change_range ch)) = 0"
  shows "(line (end' (change_range ch)) - 1 < 0 \<or> lineCount d \<le> line (end' (change_range ch)) - 1 \<longrightarrow>
            refreshDecorationsFor docUri w = Inl (IllegalLine (line (end' (change_range ch)) - 1))) \<and>
         (line (end' (change_range ch)) = 0 \<longrightarrow>
            refreshDecorationsFor docUri w = Inl (IllegalLine (- 1))) \<and>
         (0 \<le> line (end' (change_range ch)) - 1 \<and> line (end' (change_range ch)) - 1 < lineCount d \<longrightarrow>
            decoRangeOf d (change_range ch) =
              Inr (mkRange (start (change_range ch))
                     \<lparr>line = line (end' (change_range ch)) - 1,
                      character = int (length (split_nl d ! nat (line (end' (change_range ch)) - 1)))\<rparr>)) \<and>
         (0 \<le> line (end' (change_range ch)) - 1 \<and> line (end' (change_range ch)) - 1 < lineCount d \<and>
          isBefore (start (change_range ch))
            \<lparr>line = line (end' (change_range ch)) - 1,
             character = int (length (split_nl d ! nat (line (end' (change_range ch)) - 1)))\<rparr> \<longrightarrow>
            (\<exists>dr. decoRangeOf d (change_range ch) = Inr dr \<and>
                   line (end' dr) = line (end' (change_range ch)) - 1)) \<and>
         (0 \<le> line (end' (change_range ch)) - 1 \<and> line (end' (change_range ch)) - 1 < lineCount d \<and>
          start (change_range ch) = end' (change_range ch) \<longrightarrow>
            decoRangeOf d (change_range ch) =
              Inr \<lparr>start = \<lparr>line = line (end' (change_range ch)) - 1,
                              character = int (length (split_nl d ! nat (line (end' (change_range ch)) - 1)))\<rparr>,
                   end' = end' (change_range ch)\<rparr>) \<and>
         (pendingByDoc (run cmds (startWorld docUri0 d0)) docUri1 = Some ps \<and> c \<in> set ps \<and>
          kind c = Added \<longrightarrow>
            character (end' (change_range c)) = 0 \<and> start (change_range c) = end' (change_range c))"
proof -
  define l where "l = line (end' (change_range ch))"
  note dr = decoRangeOf_col0 [OF col0, of d, folded l_def]
  have throws: "refreshDecorationsFor docUri w = Inl (IllegalLine (l - 1))"
    if "l - 1 < 0 \<or> lineCount d \<le> l - 1"
  proof -
    from that dr have "decoRangeOf d (change_range ch) = Inl (IllegalLine (l - 1))" by simp
    from refreshLoop_throws [OF ok this]
    have "refreshLoop d docUri (before @ ch # rest) emptyDecorations = Inl (IllegalLine (l - 1))" .
    with vis store show ?thesis by (simp add: refreshDecorationsFor_def)
  qed
  have zero: "refreshDecorationsFor docUri w = Inl (IllegalLine (- 1))" if "l = 0"
    using throws that by simp
  have inb: "decoRangeOf d (change_range ch) =
       Inr (mkRange (start (change_range ch))
              \<lparr>line = l - 1, character = int (length (split_nl d ! nat (l - 1)))\<rparr>)"
    if "0 \<le> l - 1 \<and> l - 1 < lineCount d"
    using that dr by auto
  have ends: "\<exists>dr. decoRangeOf d (change_range ch) = Inr dr \<and> line (end' dr) = l - 1"
    if "0 \<le> l - 1 \<and> l - 1 < lineCount d \<and> isBefore (start (change_range ch))
            \<lparr>line = l - 1, character = int (length (split_nl d ! nat (l - 1)))\<rparr>"
    using that inb by (simp add: mkRange_def)
  have swapped: "decoRangeOf d (change_range ch) =
       Inr \<lparr>start = \<lparr>line = l - 1, character = int (length (split_nl d ! nat (l - 1)))\<rparr>,
            end' = end' (change_range ch)\<rparr>"
    if "0 \<le> l - 1 \<and> l - 1 < lineCount d \<and> start (change_range ch) = end' (change_range ch)"
    using that inb by (simp add: mkRange_def isBefore_def l_def)
  have added: "character (end' (change_range c)) = 0 \<and> start (change_range c) = end' (change_range c)"
    if "pendingByDoc (run cmds (startWorld docUri0 d0)) docUri1 = Some ps \<and> c \<in> set ps \<and> kind c = Added"
  proof -
    have "storeInv (run cmds (startWorld docUri0 d0))"
      by (rule run_storeInv) (rule startWorld_storeInv)
    with that have "addedZeroWidth ps" by (auto simp: storeInv_def)
    with that show ?thesis by (auto simp: addedZeroWidth_def)
  qed
  from throws zero inb ends swapped added
  show ?thesis unfolding l_def by blast
qed

theorem refresh_trims_column0_witness:
  "refreshDecorationsFor ''file:///D.jsx'' acceptedD = Inl (IllegalLine (- 1)) \<and>
   decoRangeOf localE (change_range addedE) =
     Inr \<lparr>start = \<lparr>line = 4, character = 1\<rparr>, end' = \<lparr>line = 5, character = 0\<rparr>\<rparr> \<and>
   (\<exists>dr. decoRangeOf localE (change_range changedE) = Inr dr \<and> line (end' dr) = 3)"
proof -
  have okD: "\<forall>c\<in>set ([]::PendingChange list). \<exists>dr. decoRangeOf ''b\<newline>'' (change_range c) = Inr dr"
    by simp
  have storeD: "pendingByDoc acceptedD ''file:///D.jsx'' =
     Some ([] @ \<lparr>change_id = 2, kind = Added,
            change_range = \<lparr>start = \<lparr>line = 0, character = 0\<rparr>, end' = \<lparr>line = 0, character = 0\<rparr>\<rparr>,
            remoteText = ''X\<newline>''\<rparr> # [])"
    using acceptedD_store by simp
  have 1: "refreshDecorationsFor ''file:///D.jsx'' acceptedD = Inl (IllegalLine (- 1))"
    using refresh_trims_column0 [OF acceptedD_visible storeD okD] by simp
  have okE: "\<forall>c\<in>set [removedAt 1 1, changedE]. \<exists>dr. decoRangeOf localE (change_range c) = Inr dr"
    by (simp add: removedAt_def changedE_def localE_def decoRangeOf_def lineAt_def lineCount_def)
  have storeE: "pendingByDoc markedE ''file:///E.jsx'' = Some ([removedAt 1 1, changedE] @ addedE # [])"
    using markedE_store by simp
  have 2: "decoRangeOf localE (change_range addedE) =
     Inr \<lparr>start = \<lparr>line = 4, character = 1\<rparr>, end' = \<lparr>line = 5, character = 0\<rparr>\<rparr>"
    using refresh_trims_column0 [OF markedE_visible storeE okE]
    by (simp add: addedE_def localE_def lineCount_def mkRange_def isBefore_def)
  have okE': "\<forall>c\<in>set [removedAt 1 1]. \<exists>dr. decoRangeOf localE (change_range c) = Inr dr"
    by (simp add: removedAt_def localE_def decoRangeOf_def lineAt_def lineCount_def)
  have storeE': "pendingByDoc markedE ''file:///E.jsx'' = Some ([removedAt 1 1] @ changedE # [addedE])"
    using markedE_store by simp
  have 3: "\<exists>dr. decoRangeOf localE (change_range changedE) = Inr dr \<and> line (end' dr) = 3"
    using refresh_trims_column0 [OF markedE_visible storeE' okE']
    by (simp add: changedE_def localE_def lineCount_def isBefore_def mkRange_def)
  from 1 2 3 show ?thesis by blast
qed

end
